theory Spec2Isabelle
  imports Main "HOL-Library.Word" "HOL-Library.Sublist"
begin

unbundle bit_operations_syntax

section \<open>The scheduler core of \<open>core/sched.cc\<close>: data model\<close>

subsection \<open>Thread status and its compare-and-swap\<close>

text \<open>
  The values of \<open>thread::status\<close>. The enumeration itself is declared in
  \<open>osv/sched.hh\<close>; the constructors below are the values that \<open>sched.cc\<close> names.
\<close>

datatype status =
    invalid
  | prestarted
  | unstarted
  | waiting_run
  | waiting_sto
  | sending_lock_run
  | sending_lock_sto
  | waking_run
  | waking_sto
  | stagemig_run
  | stagemig_sto
  | queued
  | running
  | terminating
  | terminated

text \<open>
  \<open>std::atomic<status>::compare_exchange_strong(expected, desired)\<close> on a status word
  holding \<open>w\<close>: when \<open>w = expected\<close> the word becomes \<open>desired\<close> and the call
  returns true; otherwise the word is left alone, \<open>expected\<close> is overwritten with the
  value observed, and the call returns false. The result is
  (success, new word, new value of \<open>expected\<close>).
\<close>

definition compare_exchange_strong :: "status \<Rightarrow> status \<Rightarrow> status \<Rightarrow> bool \<times> status \<times> status" where
  "compare_exchange_strong w expected desired =
     (if w = expected then (True, desired, expected) else (False, w, w))"

subsection \<open>Failures\<close>

text \<open>
  The ways in which a function of the scheduler does not return to its caller: a failed
  \<open>assert\<close> aborts the system; an operation on an empty container, or an index
  outside an array, has no defined behaviour; a spin loop that waits for another CPU
  to change a status word does not end while that CPU does nothing.
\<close>

datatype error = assertion_failed | undefined_behaviour | spins

subsection \<open>Threads\<close>

type_synonym tid = nat

text \<open>
  The fields of \<open>thread\<close> and of its \<open>detached_state\<close> that the functions below read
  or write: the status word \<open>st\<close>, the stage the thread is attributed to, the
  \<open>_joiner\<close> slot (\<open>None\<close> is the null pointer), the accumulated cpu time in
  nanoseconds (a signed 64-bit count) and the packed \<open>_cputime_estimator\<close>.
\<close>

record thread =
  st :: status
  stage_of :: "nat option"
  joiner :: "tid option"
  total_cpu_time :: "64 word"
  cputime_estimator :: "64 word"

subsection \<open>\<open>thread::unsafe_stop\<close>\<close>

text \<open>
  One compare-and-swap \<open>waiting_sto \<rightarrow> terminated\<close>; the result is the disjunction of
  its success with \<open>expected == status::terminated\<close>, where \<open>expected\<close> is what the
  failed swap observed.
\<close>

definition unsafe_stop :: "thread \<Rightarrow> bool \<times> thread" where
  "unsafe_stop t =
     (case compare_exchange_strong (st t) waiting_sto terminated of
        (ok, w, expected) \<Rightarrow> (ok \<or> expected = terminated, t\<lparr>st := w\<rparr>))"

subsection \<open>\<open>thread::join\<close>\<close>

text \<open>
  \<open>join\<close> either returns to its caller or enters
  \<open>wait_until([&] { return st.load() == status::terminated; })\<close>, which returns at
  once when the predicate already holds and blocks the caller otherwise.
\<close>

datatype join_outcome = join_returns | join_blocks

definition join :: "tid \<Rightarrow> thread \<Rightarrow> join_outcome \<times> thread" where
  "join cur t =
     (if st t = unstarted then (join_returns, t)
      else (case joiner t of
              Some other \<Rightarrow> (join_returns, t)
            | None \<Rightarrow>
                (if st t = terminated then join_returns else join_blocks,
                 t\<lparr>joiner := Some cur\<rparr>)))"

subsection \<open>\<open>thread::wake_impl\<close>: the compare-and-swap sequence\<close>

text \<open>
  The status word is shared with other CPUs, so between two swaps of \<open>wake_impl\<close>
  another CPU may change it. A \<open>cell\<close> holds the word together with the record
  of the swaps \<open>wake_impl\<close> has issued so far, each as
  (expected, desired, success). The function \<open>others k\<close> is what the other CPUs
  do to the word just before the \<open>k\<close>-th \<open>if\<close> of the sequence is evaluated; the
  sequential case is \<open>others = (\<lambda>k w. w)\<close>.
\<close>

type_synonym cas_record = "status \<times> status \<times> bool"

record cell =
  word :: status
  issued :: "cas_record list"

text \<open>
  The position of a status in the enumeration is fixed by the absent header, so it is
  a parameter \<open>idx\<close>. The guard of each \<open>if\<close> is
  \<open>(1 << unsigned(s) & allowed_initial_states_mask) && st->st.compare_exchange_strong(s, d)\<close>:
  the swap is issued only when the mask test is non-zero.
\<close>

definition in_mask :: "(status \<Rightarrow> nat) \<Rightarrow> 32 word \<Rightarrow> status \<Rightarrow> bool" where
  "in_mask idx allowed s \<longleftrightarrow> (push_bit (idx s) 1 AND allowed) \<noteq> 0"

definition guarded_cas :: "(status \<Rightarrow> nat) \<Rightarrow> 32 word \<Rightarrow> status \<Rightarrow> status \<Rightarrow> cell \<Rightarrow> bool \<times> cell" where
  "guarded_cas idx allowed s d c =
     (if in_mask idx allowed s then
        (case compare_exchange_strong (word c) s d of
           (ok, w, e) \<Rightarrow> (ok, \<lparr>word = w, issued = issued c @ [(s, d, ok)]\<rparr>))
      else (False, c))"

definition disturbed :: "(nat \<Rightarrow> status \<Rightarrow> status) \<Rightarrow> nat \<Rightarrow> cell \<Rightarrow> cell" where
  "disturbed others k c = c\<lparr>word := others k (word c)\<rparr>"

text \<open>
  The assertions at the head of \<open>wake_impl\<close>: the mask must contain both
  \<open>waiting_*\<close> states and nothing outside the four possible initial states.
\<close>

definition possible_states_mask :: "(status \<Rightarrow> nat) \<Rightarrow> 32 word" where
  "possible_states_mask idx =
     push_bit (idx waiting_run) 1 OR push_bit (idx waiting_sto) 1
       OR push_bit (idx sending_lock_run) 1 OR push_bit (idx sending_lock_sto) 1"

definition wake_mask_ok :: "(status \<Rightarrow> nat) \<Rightarrow> 32 word \<Rightarrow> bool" where
  "wake_mask_ok idx allowed \<longleftrightarrow>
     (allowed AND push_bit (idx waiting_run) 1) \<noteq> 0
   \<and> (allowed AND push_bit (idx waiting_sto) 1) \<noteq> 0
   \<and> (allowed AND NOT (possible_states_mask idx)) = 0"

text \<open>
  The four \<open>if\<close>s up to the label \<open>wakeup\<close>. The result \<open>Some stopped\<close> is the jump
  to \<open>wakeup\<close> with the local \<open>stopped\<close>; \<open>None\<close> is the plain \<open>return\<close>, and a
  failed assertion aborts (\<open>Inl assertion_failed\<close>). The code after the label delivers the
  wakeup to the target CPU and does not touch the status word.
\<close>

definition wake_impl_cas ::
  "(status \<Rightarrow> nat) \<Rightarrow> 32 word \<Rightarrow> (nat \<Rightarrow> status \<Rightarrow> status) \<Rightarrow> cell \<Rightarrow> error + (bool option \<times> cell)" where
  "wake_impl_cas idx allowed others c0 =
     (if \<not> wake_mask_ok idx allowed then Inl assertion_failed
      else
        (case guarded_cas idx allowed waiting_run waking_run (disturbed others 0 c0) of
           (True, c1) \<Rightarrow> Inr (Some False, c1)
         | (False, c1) \<Rightarrow>
        (case guarded_cas idx allowed waiting_sto waking_sto (disturbed others 1 c1) of
           (True, c2) \<Rightarrow> Inr (Some True, c2)
         | (False, c2) \<Rightarrow>
        (case guarded_cas idx allowed sending_lock_run waking_run (disturbed others 2 c2) of
           (True, c3) \<Rightarrow> Inr (Some False, c3)
         | (False, c3) \<Rightarrow>
        (case guarded_cas idx allowed sending_lock_sto waking_sto (disturbed others 3 c3) of
           (True, c4) \<Rightarrow> Inr (Some True, c4)
         | (False, c4) \<Rightarrow> Inr (None, c4))))))"

text \<open>
  The transitions of the wake sequence as the specification lists them, in order, each
  with whether it means that the thread had stopped.
\<close>

definition wake_transitions :: "(status \<times> status \<times> bool) list" where
  "wake_transitions =
     [(waiting_run, waking_run, False), (waiting_sto, waking_sto, True),
      (sending_lock_run, waking_run, False), (sending_lock_sto, waking_sto, True)]"

subsection \<open>The cputime estimator\<close>

text \<open>
  Times are 64-bit counts of nanoseconds: signed in \<open>cputime_estimator_set\<close>, whose
  \<open>>>\<close> is therefore an arithmetic shift, and converted to \<open>u64\<close> in
  \<open>cputime_estimator_get\<close>. The conversion to \<open>u32\<close> keeps the low 32 bits.
\<close>

definition cputime_shift :: nat where
  "cputime_shift = 10"

definition cputime_estimator_set :: "64 word \<Rightarrow> 64 word \<Rightarrow> thread \<Rightarrow> thread" where
  "cputime_estimator_set running_since total_time t =
     (let rs = (ucast (signed_drop_bit cputime_shift running_since) :: 32 word);
          tc = (ucast (signed_drop_bit cputime_shift total_time) :: 32 word)
      in t\<lparr>cputime_estimator := ucast rs OR push_bit 32 (ucast tc)\<rparr>)"

text \<open>
  The constant \<open>ho\<close> selects the \<open>64 - 32 - cputime_shift\<close> high-order bits. The
  reference values are the current uptime \<open>now\<close> and the thread's
  \<open>_total_cpu_time\<close>; the result is the pair written to the two reference
  parameters \<open>running_since\<close> and \<open>total_cpu_time\<close>.
\<close>

definition ho :: "64 word" where
  "ho = (- 1) AND NOT (drop_bit (64 - 32 - cputime_shift) (- 1))"

definition cputime_estimator_get :: "64 word \<Rightarrow> thread \<Rightarrow> 64 word \<times> 64 word" where
  "cputime_estimator_get now t =
     (let e = cputime_estimator t;
          rs = push_bit cputime_shift (ucast (ucast e :: 32 word));
          tc = push_bit cputime_shift (drop_bit 32 e);
          rs_ref = now;
          tc_ref = total_cpu_time t;
          rs_ho = rs_ref AND ho;
          tc_ho = tc_ref AND ho;
          rs_ho = (if (rs_ref AND NOT ho) < rs
                   then rs_ho - push_bit (32 + cputime_shift) 1 else rs_ho);
          tc_ho = (if (tc_ref AND NOT ho) < tc
                   then tc_ho - push_bit (32 + cputime_shift) 1 else tc_ho)
      in (rs_ho OR rs, tc_ho OR tc))"

subsection \<open>One CPU and its scheduler\<close>

text \<open>
  The state that the scheduler of one CPU works on, seen from that CPU: the thread
  objects (a pointer to a thread is its number), the \<open>_c_in\<close> counter of every stage,
  the fields of the \<open>cpu\<close> object, the current thread \<open>thread::current()\<close> and the
  flag \<open>need_reschedule\<close>. The wakeup mask is the set of the source CPUs whose bit is
  set; \<open>incoming_wakeups\<close> holds one list per source CPU; \<open>stagesched_incoming\<close> is
  the queue of threads migrating in, taken from its head. Tracepoints, statistics
  counters, timers, the lazy TLB flush, \<open>app_thread\<close> and the destruction of a
  terminating thread after the switch are left out: no function below reads them.
\<close>

record cpu_state =
  threads :: "tid \<Rightarrow> thread"
  stage_c_in :: "nat \<Rightarrow> int"
  idle_thread :: tid
  runqueue :: "tid list"
  running_since :: "64 word"
  incoming_wakeups_mask :: "nat set"
  incoming_wakeups :: "nat \<Rightarrow> tid list"
  stagesched_incoming :: "tid list"
  current :: tid
  need_reschedule :: bool

definition status_of :: "cpu_state \<Rightarrow> tid \<Rightarrow> status" where
  "status_of w t = st (threads w t)"

definition set_status :: "tid \<Rightarrow> status \<Rightarrow> cpu_state \<Rightarrow> cpu_state" where
  "set_status t s w = w\<lparr>threads := (threads w)(t := (threads w t)\<lparr>st := s\<rparr>)\<rparr>"

text \<open>\<open>cpu::enqueue\<close>: \<open>runqueue.push_back(t)\<close>.\<close>

definition enqueue :: "tid \<Rightarrow> cpu_state \<Rightarrow> cpu_state" where
  "enqueue t w = w\<lparr>runqueue := runqueue w @ [t]\<rparr>"

text \<open>
  The increment and decrement of \<open>_detached_state->_stage->_c_in\<close>, done only when
  the thread has a stage.
\<close>

definition stage_count :: "tid \<Rightarrow> int \<Rightarrow> cpu_state \<Rightarrow> cpu_state" where
  "stage_count t k w =
     (case stage_of (threads w t) of
        None \<Rightarrow> w
      | Some sg \<Rightarrow> w\<lparr>stage_c_in := (stage_c_in w)(sg := stage_c_in w sg + k)\<rparr>)"

text \<open>
  \<open>cpu::handle_incoming_wakeups\<close>. \<open>wake_one\<close> is the body of the loop over one
  queue for the thread taken from its front. For the current thread the swap
  \<open>waking_run \<rightarrow> running\<close> is asserted to succeed. For another thread the swap
  \<open>waking_sto \<rightarrow> queued\<close> is retried for as long as the thread is observed in
  \<open>waking_run\<close>, which only the CPU that still runs it can end; any other observed
  status fails the assertion. The state being that of one CPU, the assertions on the
  home CPU of the woken thread are left out, as is the resumption of its timers.
\<close>

definition wake_one :: "tid \<Rightarrow> cpu_state \<Rightarrow> error + cpu_state" where
  "wake_one t w =
     (if t = current w then
        (case compare_exchange_strong (status_of w t) waking_run running of
           (cmpxchg_res, s, st_before) \<Rightarrow>
             if cmpxchg_res then Inr (set_status t s w) else Inl assertion_failed)
      else
        (case compare_exchange_strong (status_of w t) waking_sto queued of
           (ok, s, st_before) \<Rightarrow>
             if ok then Inr (stage_count t 1 (enqueue t (set_status t s w)))
             else if st_before = waking_run then Inl spins
             else Inl assertion_failed))"

fun drain_queue :: "tid list \<Rightarrow> cpu_state \<Rightarrow> error + cpu_state" where
  "drain_queue [] w = Inr w"
| "drain_queue (t # q) w =
     (case wake_one t w of Inl e \<Rightarrow> Inl e | Inr w' \<Rightarrow> drain_queue q w')"

fun drain_sources :: "nat list \<Rightarrow> cpu_state \<Rightarrow> error + cpu_state" where
  "drain_sources [] w = Inr w"
| "drain_sources (i # rest) w =
     (case drain_queue (incoming_wakeups w i) (w\<lparr>incoming_wakeups := (incoming_wakeups w)(i := [])\<rparr>) of
        Inl e \<Rightarrow> Inl e
      | Inr w' \<Rightarrow> drain_sources rest w')"

definition handle_incoming_wakeups :: "cpu_state \<Rightarrow> error + cpu_state" where
  "handle_incoming_wakeups w =
     (let queues_with_wakes = incoming_wakeups_mask w;
          w' = w\<lparr>incoming_wakeups_mask := {}\<rparr>
      in if queues_with_wakes = {} then Inr w'
         else drain_sources (sorted_list_of_set queues_with_wakes) w')"

text \<open>
  \<open>stage::dequeue\<close>, for the CPU that runs it. The swap \<open>stagemig_sto \<rightarrow> queued\<close>
  is retried while the thread is observed in \<open>stagemig_run\<close>.
\<close>

definition dequeue_one :: "tid \<Rightarrow> cpu_state \<Rightarrow> error + cpu_state" where
  "dequeue_one t w =
     (case compare_exchange_strong (status_of w t) stagemig_sto queued of
        (ok, s, st_before) \<Rightarrow>
          if ok then Inr (stage_count t 1 (enqueue t (set_status t s w)))
          else if st_before = stagemig_run then Inl spins
          else Inl assertion_failed)"

fun dequeue_all :: "tid list \<Rightarrow> cpu_state \<Rightarrow> error + cpu_state" where
  "dequeue_all [] w = Inr w"
| "dequeue_all (t # inq) w =
     (case dequeue_one t w of Inl e \<Rightarrow> Inl e | Inr w' \<Rightarrow> dequeue_all inq w')"

definition dequeue :: "cpu_state \<Rightarrow> error + cpu_state" where
  "dequeue w =
     (if status_of w (current w) = stagemig_run then Inl assertion_failed
      else dequeue_all (stagesched_incoming w) (w\<lparr>stagesched_incoming := []\<rparr>))"

text \<open>
  \<open>cpu::reschedule_from_interrupt\<close>, in the two parts of its body. The first part
  (up to \<open>p->_total_cpu_time += interval\<close>) handles the wakeups, measures the
  interval, loads the status \<open>p_status\<close> of the outgoing thread, drains the stage
  queue and charges the interval; it yields \<open>p_status\<close> and the state. The clock
  reading \<open>now\<close> and the constant \<open>context_switch_penalty\<close> of the absent header are
  parameters. The interval is a signed count, so its test against zero is a signed
  comparison. The opening assertion on \<open>sched::exception_depth\<close> is left out.
\<close>

definition reschedule_account :: "64 word \<Rightarrow> 64 word \<Rightarrow> cpu_state \<Rightarrow> error + status \<times> cpu_state" where
  "reschedule_account now context_switch_penalty w =
     (case handle_incoming_wakeups (w\<lparr>need_reschedule := False\<rparr>) of
        Inl e \<Rightarrow> Inl e
      | Inr w1 \<Rightarrow>
          (let interval = now - running_since w1;
               w2 = w1\<lparr>running_since := now\<rparr>;
               interval = (if interval \<le>s 0 then context_switch_penalty else interval);
               p = current w2;
               p_status = status_of w2 p
           in if p_status = queued then Inl assertion_failed
              else case (if p_status \<noteq> stagemig_run then dequeue w2 else Inr w2) of
                     Inl e \<Rightarrow> Inl e
                   | Inr w3 \<Rightarrow>
                       Inr (p_status,
                            w3\<lparr>threads := (threads w3)
                                 (p := (threads w3 p)\<lparr>total_cpu_time :=
                                         total_cpu_time (threads w3 p) + interval\<rparr>)\<rparr>)))"

text \<open>
  The second part: the decision about the outgoing thread \<open>p\<close>, then the choice of
  the head \<open>n\<close> of the run queue and the switch to it. Taking \<open>runqueue.begin()\<close>
  of an empty queue has no defined behaviour. Of the architecture's \<open>switch_to\<close>,
  which is not part of these sources, only the change of the current thread is
  recorded.
\<close>

definition switch_to_head :: "64 word \<Rightarrow> cpu_state \<Rightarrow> error + cpu_state" where
  "switch_to_head now w =
     (case runqueue w of
        [] \<Rightarrow> Inl undefined_behaviour
      | n # rest \<Rightarrow>
          if status_of w n \<noteq> queued then Inl assertion_failed
          else
            (let w1 = w\<lparr>runqueue := rest\<rparr>;
                 w2 = w1\<lparr>threads := (threads w1)
                        (n := cputime_estimator_set now (total_cpu_time (threads w1 n)) (threads w1 n))\<rparr>;
                 w3 = set_status n running w2
             in Inr (w3\<lparr>current := n\<rparr>)))"

definition reschedule_switch :: "64 word \<Rightarrow> status \<Rightarrow> cpu_state \<Rightarrow> error + cpu_state" where
  "reschedule_switch now p_status w =
     (let p = current w
      in if p_status = running then
           (if p = idle_thread w \<and> runqueue w = [] then Inr w
            else if p \<noteq> idle_thread w \<and> length (runqueue w) = 1 then Inr w
            else switch_to_head now (enqueue p (set_status p queued w)))
         else switch_to_head now (stage_count p (- 1) w))"

definition reschedule_from_interrupt :: "64 word \<Rightarrow> 64 word \<Rightarrow> cpu_state \<Rightarrow> error + cpu_state" where
  "reschedule_from_interrupt now context_switch_penalty w =
     (case reschedule_account now context_switch_penalty w of
        Inl e \<Rightarrow> Inl e
      | Inr (p_status, w') \<Rightarrow> reschedule_switch now p_status w')"

subsection \<open>\<open>thread::yield\<close>\<close>

text \<open>
  Modelled from the spec: the priority constants \<open>thread::priority_default\<close> and
  \<open>thread::priority_idle\<close> are declared in the absent header \<open>osv/sched.hh\<close>; the
  specification describes them as a single default and a distinct idle sentinel.
\<close>

datatype priority_value = priority_default | priority_idle

text \<open>\<open>thread::set_priority\<close> has an empty body and \<open>thread::priority\<close> returns the default.\<close>

definition set_priority :: "priority_value \<Rightarrow> thread \<Rightarrow> thread" where
  "set_priority pr t = t"

definition priority :: "thread \<Rightarrow> priority_value" where
  "priority t = priority_default"

definition yield :: "64 word \<Rightarrow> 64 word \<Rightarrow> cpu_state \<Rightarrow> error + cpu_state" where
  "yield now context_switch_penalty w =
     (case handle_incoming_wakeups w of
        Inl e \<Rightarrow> Inl e
      | Inr w1 \<Rightarrow>
          (case runqueue w1 of
             [] \<Rightarrow> Inr w1
           | tnext # rest \<Rightarrow>
               if status_of w1 (current w1) \<noteq> running then Inl assertion_failed
               else if priority (threads w1 tnext) = priority_idle then Inr w1
               else reschedule_from_interrupt now context_switch_penalty w1))"

subsection \<open>Timers\<close>

text \<open>
  The timers of one client (a thread) on the CPU it runs on: the \<open>_state\<close> and
  \<open>_time\<close> of every timer (a timer is a number), the client's intrusive list
  \<open>_active_timers\<close>, and the timers in \<open>cpu::current()->timers._list\<close>. That
  container is declared in an absent header; it is kept as the set of its members,
  with \<open>insert\<close> and \<open>remove\<close> as the operations by those names. Reprogramming the
  clock event (\<open>rearm\<close>) is left out.
\<close>

datatype timer_state = free | armed | expired

record timer_env =
  tstate :: "nat \<Rightarrow> timer_state"
  ttime :: "nat \<Rightarrow> 64 word"
  active_timers :: "nat list"
  cpu_timers :: "nat set"

text \<open>
  \<open>_active_timers.erase(_active_timers.iterator_to(*this))\<close> unlinks the timer from
  the list it is linked into; for a timer that is not linked into it the behaviour is
  not defined. \<open>push_back\<close> of a timer that is already linked is not defined either.
\<close>

definition erase :: "nat \<Rightarrow> nat list \<Rightarrow> error + nat list" where
  "erase t l = (if t \<in> set l then Inr (remove1 t l) else Inl undefined_behaviour)"

definition push_back :: "nat \<Rightarrow> nat list \<Rightarrow> error + nat list" where
  "push_back t l = (if t \<in> set l then Inl undefined_behaviour else Inr (l @ [t]))"

text \<open>\<open>timer_base::set\<close>.\<close>

definition set_timer :: "nat \<Rightarrow> 64 word \<Rightarrow> timer_env \<Rightarrow> error + timer_env" where
  "set_timer t time w =
     (let w1 = w\<lparr>tstate := (tstate w)(t := armed), ttime := (ttime w)(t := time)\<rparr>
      in case push_back t (active_timers w1) of
           Inl e \<Rightarrow> Inl e
         | Inr l \<Rightarrow> Inr (w1\<lparr>active_timers := l, cpu_timers := insert t (cpu_timers w1)\<rparr>))"

text \<open>\<open>timer_base::expire\<close>, without the callback \<open>_t.timer_fired()\<close> of the client.\<close>

definition expire :: "nat \<Rightarrow> timer_env \<Rightarrow> error + timer_env" where
  "expire t w =
     (let w1 = w\<lparr>tstate := (tstate w)(t := expired)\<rparr>
      in case erase t (active_timers w1) of
           Inl e \<Rightarrow> Inl e
         | Inr l \<Rightarrow> Inr (w1\<lparr>active_timers := l\<rparr>))"

text \<open>
  One round of the loop of \<open>timer_list::fired\<close> for a timer that
  \<open>_list.pop_expired()\<close> has returned: the timer has left the CPU's list, is asserted
  to be armed, and expires.
\<close>

definition fire :: "nat \<Rightarrow> timer_env \<Rightarrow> error + timer_env" where
  "fire t w =
     (if t \<notin> cpu_timers w then Inl undefined_behaviour
      else if tstate w t \<noteq> armed then Inl assertion_failed
      else expire t (w\<lparr>cpu_timers := cpu_timers w - {t}\<rparr>))"

text \<open>\<open>timer_base::cancel\<close>.\<close>

definition cancel :: "nat \<Rightarrow> timer_env \<Rightarrow> error + timer_env" where
  "cancel t w =
     (if tstate w t = free then Inr w
      else
        (case (if tstate w t = armed then
                 (case erase t (active_timers w) of
                    Inl e \<Rightarrow> Inl e
                  | Inr l \<Rightarrow> Inr (w\<lparr>active_timers := l, cpu_timers := cpu_timers w - {t}\<rparr>))
               else Inr w) of
           Inl e \<Rightarrow> Inl e
         | Inr w1 \<Rightarrow> Inr (w1\<lparr>tstate := (tstate w1)(t := free)\<rparr>)))"

subsection \<open>The assignment of CPUs to stages\<close>

text \<open>
  \<open>class assignment\<close>: the requirements \<open>reqs\<close> (CPUs per stage), the set of CPUs of
  each stage, and the numbers of CPUs and of stages it was built for. The two
  \<open>std::array\<close>s have \<open>max_stages\<close> slots of which the code initialises and reads
  the first \<open>stages\<close>; they are the lists of these slots. A \<open>bitset_cpu_set\<close> is
  the set of the CPU numbers whose bit is set. The constructor is only called with
  \<open>cpus.size()\<close> and the stage counter, so the two counts are natural numbers; the
  requirements stay integers, as their differences are signed.
\<close>

type_synonym requirements = "int list"

record assignment =
  reqs :: requirements
  cpus_per_stage :: "nat set list"
  cpus :: nat
  stages :: nat

text \<open>\<open>validate_reqs\<close>: the two assertions, as the condition under which they pass.\<close>

definition validate_reqs :: "assignment \<Rightarrow> requirements \<Rightarrow> bool" where
  "validate_reqs a rq \<longleftrightarrow>
     list_all (\<lambda>r. 0 \<le> r) (take (stages a) rq) \<and> sum_list (take (stages a) rq) = int (cpus a)"

text \<open>
  The constructor \<open>assignment(cpus, stages)\<close>: CPU \<open>c\<close> goes to stage
  \<open>c % stages\<close>. With no stage and at least one CPU the remainder is a division by
  zero.
\<close>

definition assign_cpu :: "nat \<Rightarrow> assignment \<Rightarrow> assignment" where
  "assign_cpu c a =
     (let si = c mod stages a
      in a\<lparr>reqs := (reqs a)[si := reqs a ! si + 1],
           cpus_per_stage := (cpus_per_stage a)[si := insert c (cpus_per_stage a ! si)]\<rparr>)"

definition new_assignment :: "nat \<Rightarrow> nat \<Rightarrow> error + assignment" where
  "new_assignment ncpus nstages =
     (if \<not> nstages \<le> ncpus then Inl assertion_failed
      else if nstages = 0 \<and> 0 < ncpus then Inl undefined_behaviour
      else
        (let a = fold assign_cpu [0..<ncpus]
                   \<lparr>reqs = replicate nstages 0, cpus_per_stage = replicate nstages {},
                    cpus = ncpus, stages = nstages\<rparr>
         in if validate_reqs a (reqs a) then Inr a else Inl assertion_failed))"

text \<open>
  \<open>transfer_cpus\<close> walks the members of the source set in increasing order. For
  each, while \<open>amount\<close> is not zero, \<open>test_and_set\<close> adds it to the target set and
  tells whether it was there already; when it was not, it is removed from the source
  set; \<open>amount\<close> is decremented either way. The walk is over the members the source
  set had on entry: removing the member just visited does not disturb the rest of the
  walk. The final assertion is \<open>amount == 0\<close>.
\<close>

fun transfer_loop :: "nat list \<Rightarrow> nat set \<Rightarrow> nat set \<Rightarrow> nat \<Rightarrow> nat set \<times> nat set \<times> nat" where
  "transfer_loop [] from_set to_set amount = (from_set, to_set, amount)"
| "transfer_loop (f # fs) from_set to_set amount =
     (if amount = 0 then (from_set, to_set, amount)
      else
        (let was_set = (f \<in> to_set);
             to_set' = insert f to_set;
             from_set' = (if \<not> was_set then from_set - {f} else from_set)
         in transfer_loop fs from_set' to_set' (amount - 1)))"

definition transfer_cpus :: "nat \<Rightarrow> nat \<Rightarrow> nat \<Rightarrow> assignment \<Rightarrow> error + assignment" where
  "transfer_cpus from_stage to_stage amount a =
     (if \<not> (from_stage < length (cpus_per_stage a) \<and> to_stage < length (cpus_per_stage a))
      then Inl undefined_behaviour
      else
        (let from_set = cpus_per_stage a ! from_stage;
             to_set = cpus_per_stage a ! to_stage
         in case transfer_loop (sorted_list_of_set from_set) from_set to_set amount of
              (from_set', to_set', amount') \<Rightarrow>
                if amount' = 0
                then Inr (a\<lparr>cpus_per_stage :=
                             (cpus_per_stage a)[from_stage := from_set', to_stage := to_set']\<rparr>)
                else Inl assertion_failed))"

text \<open>
  \<open>transition_to\<close>. The state of its loops is the array \<open>req_delta\<close> and the
  assignment. \<open>pair_step si isi\<close> is the body of the inner loop, \<open>stage_step si\<close>
  the body of the outer loop with its closing assertion \<open>req_delta[si] == 0\<close>.
  A read of an array slot that was never initialised has no defined behaviour.
\<close>

definition pair_step :: "nat \<Rightarrow> nat \<Rightarrow> int list \<times> assignment \<Rightarrow> error + int list \<times> assignment" where
  "pair_step si isi s =
     (case s of (req_delta, a) \<Rightarrow>
        (let txcpu_c = min \<bar>req_delta ! isi\<bar> \<bar>req_delta ! si\<bar>
         in if req_delta ! isi < 0 \<and> req_delta ! si > 0 then
              (let d1 = req_delta[si := req_delta ! si - txcpu_c];
                   d2 = d1[isi := d1 ! isi + txcpu_c]
               in case transfer_cpus isi si (nat txcpu_c) a of
                    Inl e \<Rightarrow> Inl e
                  | Inr a' \<Rightarrow>
                      if d2 ! isi \<le> 0 \<and> d2 ! si \<ge> 0 then Inr (d2, a')
                      else Inl assertion_failed)
            else if req_delta ! isi > 0 \<and> req_delta ! si < 0 then
              (let d1 = req_delta[si := req_delta ! si + txcpu_c];
                   d2 = d1[isi := d1 ! isi - txcpu_c]
               in case transfer_cpus si isi (nat txcpu_c) a of
                    Inl e \<Rightarrow> Inl e
                  | Inr a' \<Rightarrow>
                      if d2 ! isi \<ge> 0 \<and> d2 ! si \<le> 0 then Inr (d2, a')
                      else Inl assertion_failed)
            else Inr (req_delta, a)))"

fun pair_loop :: "nat \<Rightarrow> nat list \<Rightarrow> int list \<times> assignment \<Rightarrow> error + int list \<times> assignment" where
  "pair_loop si [] s = Inr s"
| "pair_loop si (isi # rest) s =
     (case pair_step si isi s of Inl e \<Rightarrow> Inl e | Inr s' \<Rightarrow> pair_loop si rest s')"

definition stage_step :: "nat \<Rightarrow> int list \<times> assignment \<Rightarrow> error + int list \<times> assignment" where
  "stage_step si s =
     (if fst s ! si = 0 then Inr s
      else case pair_loop si [si..<stages (snd s)] s of
             Inl e \<Rightarrow> Inl e
           | Inr s' \<Rightarrow> if fst s' ! si = 0 then Inr s' else Inl assertion_failed)"

fun stage_loop :: "nat list \<Rightarrow> int list \<times> assignment \<Rightarrow> error + int list \<times> assignment" where
  "stage_loop [] s = Inr s"
| "stage_loop (si # rest) s =
     (case stage_step si s of Inl e \<Rightarrow> Inl e | Inr s' \<Rightarrow> stage_loop rest s')"

definition transition_to :: "requirements \<Rightarrow> assignment \<Rightarrow> error + assignment" where
  "transition_to new_reqs a =
     (if length new_reqs < stages a \<or> length (reqs a) < stages a then Inl undefined_behaviour
      else if \<not> validate_reqs a new_reqs then Inl assertion_failed
      else
        (let req_delta = map (\<lambda>si. new_reqs ! si - reqs a ! si) [0..<stages a]
         in if sum_list req_delta \<noteq> 0 then Inl assertion_failed
            else case stage_loop [0..<stages a] (req_delta, a) of
                   Inl e \<Rightarrow> Inl e
                 | Inr (d, a') \<Rightarrow> Inr (a'\<lparr>reqs := new_reqs\<rparr>)))"

subsection \<open>\<open>stage::define\<close>\<close>

text \<open>
  The static state of \<open>class stage\<close>: the array \<open>stages\<close> of \<open>max_stages\<close> slots,
  the counter \<open>stages_next\<close>, the published \<open>_assignment\<close> (\<open>None\<close> is the null
  pointer it holds before the first stage is defined) and its creation time; also the
  number of CPUs \<open>cpus.size()\<close>, and the objects handed to \<open>rcu_dispose\<close> so far.
  The constant \<open>max_stages\<close> comes from the absent header and is the length of the
  array.
\<close>

record stage =
  stage_id :: nat
  stage_name :: string
  c_in :: int

record stage_state =
  stages_arr :: "stage list"
  stages_next :: nat
  published :: "assignment option"
  assignment_creation :: int
  ncpus :: nat
  disposed :: "assignment option list"

text \<open>
  \<open>stage::define\<close> (\<open>stage_define\<close> here) returns a pointer into the array, as the
  index of the slot, or the null pointer \<open>None\<close>. \<open>clock\<close> is the reading of the
  steady clock.
\<close>

definition stage_define :: "string \<Rightarrow> int \<Rightarrow> stage_state \<Rightarrow> error + nat option \<times> stage_state" where
  "stage_define name clock w =
     (if stages_next w = length (stages_arr w) then Inr (None, w)
      else if \<not> stages_next w < length (stages_arr w) then Inl undefined_behaviour
      else
        (let k = stages_next w;
             next = (stages_arr w ! k)\<lparr>stage_id := k, stage_name := name\<rparr>;
             ca = published w
         in case new_assignment (ncpus w) (k + 1) of
              Inl e \<Rightarrow> Inl e
            | Inr da \<Rightarrow>
                Inr (Some k,
                     w\<lparr>stages_arr := (stages_arr w)[k := next],
                       stages_next := k + 1,
                       published := Some da,
                       assignment_creation := clock,
                       disposed := disposed w @ [ca]\<rparr>)))"

subsection \<open>Invariants\<close>

text \<open>
  The scheduler's invariant. The idle thread never sleeps: it is the current thread or
  it is queued. The run queue holds every thread at most once, only threads whose
  status is \<open>queued\<close>, and never the current thread.
\<close>

definition cpu_ok :: "cpu_state \<Rightarrow> bool" where
  "cpu_ok w \<longleftrightarrow>
     distinct (runqueue w) \<and> current w \<notin> set (runqueue w)
   \<and> (current w \<noteq> idle_thread w \<longrightarrow> idle_thread w \<in> set (runqueue w))
   \<and> (\<forall>t \<in> set (runqueue w). status_of w t = queued)"

text \<open>
  The link invariant of the timers: a timer is linked into \<open>_active_timers\<close>, once,
  exactly while it is armed, and only armed timers are in the CPU's list (an armed
  timer is absent from it while the timers of its client are suspended).
\<close>

definition timers_ok :: "timer_env \<Rightarrow> bool" where
  "timers_ok w \<longleftrightarrow>
     distinct (active_timers w)
   \<and> (\<forall>t. (tstate w t = armed) = (t \<in> set (active_timers w)))
   \<and> (\<forall>t. t \<in> cpu_timers w \<longrightarrow> tstate w t = armed)"

text \<open>
  An assignment is well formed when its two arrays cover its stages, its requirements
  add up to its number of CPUs, every stage has a finite set of CPUs whose size is its
  requirement, and the sets of different stages are disjoint.
\<close>

definition assignment_ok :: "assignment \<Rightarrow> bool" where
  "assignment_ok a \<longleftrightarrow>
     length (reqs a) = stages a \<and> length (cpus_per_stage a) = stages a
   \<and> sum_list (reqs a) = int (cpus a)
   \<and> (\<forall>i < stages a. finite (cpus_per_stage a ! i)
                       \<and> int (card (cpus_per_stage a ! i)) = reqs a ! i)
   \<and> (\<forall>i < stages a. \<forall>j < stages a. i \<noteq> j \<longrightarrow>
          cpus_per_stage a ! i \<inter> cpus_per_stage a ! j = {})"

text \<open>The CPUs whose stage changes between two assignments over the same stages.\<close>

definition moved :: "assignment \<Rightarrow> assignment \<Rightarrow> nat set" where
  "moved a b = (\<Union>i < stages a. cpus_per_stage b ! i - cpus_per_stage a ! i)"

text \<open>
  What the loop of the constructor maintains after \<open>m\<close> CPUs: the requirements are
  not negative and add up to \<open>m\<close>.
\<close>

definition counted :: "nat \<Rightarrow> nat \<Rightarrow> nat \<Rightarrow> assignment \<Rightarrow> bool" where
  "counted n k m a \<longleftrightarrow>
     cpus a = n \<and> stages a = k \<and> length (reqs a) = k \<and> list_all (\<lambda>r. 0 \<le> r) (reqs a)
     \<and> sum_list (reqs a) = int m"

text \<open>
  What the loops of \<open>transition_to\<close> maintain, for the assignment \<open>a0\<close> on entry
  and the new requirements \<open>nr\<close>: the size of every stage's set is its new requirement
  less the delta \<open>d\<close> still to be served; the sets stay finite, disjoint and with
  the same union; the deltas add up to zero; a stage whose original delta is positive
  only gains CPUs and keeps a delta that is not negative, one whose original delta is
  negative only loses CPUs, and one whose original delta is zero is not touched.
\<close>

definition transition_inv :: "assignment \<Rightarrow> requirements \<Rightarrow> int list \<Rightarrow> assignment \<Rightarrow> bool" where
  "transition_inv a0 nr d a \<longleftrightarrow>
     stages a = stages a0 \<and> cpus a = cpus a0 \<and> reqs a = reqs a0
   \<and> length d = stages a0 \<and> length (cpus_per_stage a) = stages a0
   \<and> sum_list d = 0
   \<and> (\<forall>i< stages a0. finite (cpus_per_stage a ! i))
   \<and> (\<forall>i< stages a0. int (card (cpus_per_stage a ! i)) = nr ! i - d ! i)
   \<and> (\<forall>i< stages a0. \<forall>j< stages a0. i \<noteq> j \<longrightarrow> cpus_per_stage a ! i \<inter> cpus_per_stage a ! j = {})
   \<and> (\<forall>i< stages a0.
         (0 < nr ! i - reqs a0 ! i \<longrightarrow> cpus_per_stage a0 ! i \<subseteq> cpus_per_stage a ! i \<and> 0 \<le> d ! i)
       \<and> (nr ! i - reqs a0 ! i < 0 \<longrightarrow> cpus_per_stage a ! i \<subseteq> cpus_per_stage a0 ! i \<and> d ! i \<le> 0)
       \<and> (nr ! i - reqs a0 ! i = 0 \<longrightarrow> cpus_per_stage a ! i = cpus_per_stage a0 ! i \<and> d ! i = 0))
   \<and> (\<Union>i< stages a0. cpus_per_stage a ! i) = (\<Union>i< stages a0. cpus_per_stage a0 ! i)"

section \<open>Properties\<close>

subsection \<open>\<open>thread::unsafe_stop\<close>\<close>

text \<open>
  Claim C7. \<open>unsafe_stop\<close> returns true exactly when the status it observes is
  \<open>waiting_sto\<close> or \<open>terminated\<close>; an observed \<open>waiting_sto\<close> is replaced by
  \<open>terminated\<close>, and every other observed status is left as it was.
\<close>

theorem unsafe_stop_result:
  "fst (unsafe_stop t) = (st t = waiting_sto \<or> st t = terminated)
   \<and> snd (unsafe_stop t) = (if st t = waiting_sto then t\<lparr>st := terminated\<rparr> else t)"
  by (simp add: unsafe_stop_def compare_exchange_strong_def)

subsection \<open>\<open>thread::join\<close>\<close>

text \<open>
  Claim C9. \<open>join\<close> on a thread whose status is \<open>unstarted\<close> returns at once and
  leaves the thread as it was: its status is not changed and \<open>_joiner\<close> is not
  written, whoever the caller is.
\<close>

theorem join_unstarted:
  "st t = unstarted \<Longrightarrow> join cur t = (join_returns, t)"
  by (simp add: join_def)

theorem join_unstarted_witness:
  "join 7 \<lparr>st = unstarted, stage_of = None, joiner = None, total_cpu_time = 0,
             cputime_estimator = 0\<rparr>
     = (join_returns, \<lparr>st = unstarted, stage_of = None, joiner = None, total_cpu_time = 0,
             cputime_estimator = 0\<rparr>)"
  using join_unstarted [of "\<lparr>st = unstarted, stage_of = None, joiner = None,
      total_cpu_time = 0, cputime_estimator = 0\<rparr>" 7]
  by simp

subsection \<open>\<open>thread::wake_impl\<close>\<close>

lemma allowed_wake_transitions:
  "[(s, d). (s, d, b) \<leftarrow> wake_transitions, in_mask idx allowed s] =
     (if in_mask idx allowed waiting_run then [(waiting_run, waking_run)] else []) @
     (if in_mask idx allowed waiting_sto then [(waiting_sto, waking_sto)] else []) @
     (if in_mask idx allowed sending_lock_run then [(sending_lock_run, waking_run)] else []) @
     (if in_mask idx allowed sending_lock_sto then [(sending_lock_sto, waking_sto)] else [])"
  by (simp add: wake_transitions_def)

text \<open>
  Claim C2. Started with no swap issued yet, \<open>wake_impl\<close> issues its swaps in the
  order of \<open>wake_transitions\<close>, skipping those whose initial state is not in the
  allowed mask and stopping at the first that succeeds: the swaps issued are a prefix
  of the allowed transitions, and only the last of them can have succeeded. When one
  succeeds, the status word holds its target and \<open>stopped\<close> is the flag of that
  transition (true for the \<open>_sto\<close> states). When none succeeds, every allowed
  transition has been tried and \<open>wake_impl\<close> returns without having written the
  word: it holds what the other CPUs left there.
\<close>

theorem wake_impl_cas_sequence:
  assumes "wake_impl_cas idx allowed others c0 = Inr (outcome, c)" and "issued c0 = []"
  shows "prefix (map (\<lambda>(s, d, ok). (s, d)) (issued c))
             [(s, d). (s, d, b) \<leftarrow> wake_transitions, in_mask idx allowed s]
       \<and> (\<forall>i. Suc i < length (issued c) \<longrightarrow> \<not> snd (snd (issued c ! i)))
       \<and> (case outcome of
            Some stopped \<Rightarrow>
              (\<exists>s d. issued c \<noteq> [] \<and> last (issued c) = (s, d, True) \<and> word c = d
                     \<and> (s, d, stopped) \<in> set wake_transitions)
          | None \<Rightarrow>
              map (\<lambda>(s, d, ok). (s, d)) (issued c)
                = [(s, d). (s, d, b) \<leftarrow> wake_transitions, in_mask idx allowed s]
              \<and> (\<forall>r \<in> set (issued c). \<not> snd (snd r))
              \<and> word c = others 3 (others 2 (others 1 (others 0 (word c0)))))"
  using assms unfolding allowed_wake_transitions
  apply (simp add: wake_impl_cas_def guarded_cas_def disturbed_def compare_exchange_strong_def
      split: if_splits)
  apply (auto simp: wake_transitions_def nth_Cons less_Suc_eq_0_disj split: nat.splits)
  done

theorem wake_impl_cas_sequence_witness:
  "wake_impl_cas
      (\<lambda>s. case s of waiting_run \<Rightarrow> 3 | waiting_sto \<Rightarrow> 4 | sending_lock_run \<Rightarrow> 5
             | sending_lock_sto \<Rightarrow> 6 | _ \<Rightarrow> 0)
      24 (\<lambda>k w. w) \<lparr>word = waiting_sto, issued = []\<rparr>
     = Inr (Some True,
            \<lparr>word = waking_sto,
             issued = [(waiting_run, waking_run, False), (waiting_sto, waking_sto, True)]\<rparr>)
   \<and> prefix [(waiting_run, waking_run), (waiting_sto, waking_sto)]
        [(s, d). (s, d, b) \<leftarrow> wake_transitions,
           in_mask (\<lambda>s. case s of waiting_run \<Rightarrow> 3 | waiting_sto \<Rightarrow> 4
                     | sending_lock_run \<Rightarrow> 5 | sending_lock_sto \<Rightarrow> 6 | _ \<Rightarrow> 0) 24 s]"
proof -
  have run:
    "wake_impl_cas
        (\<lambda>s. case s of waiting_run \<Rightarrow> 3 | waiting_sto \<Rightarrow> 4 | sending_lock_run \<Rightarrow> 5
               | sending_lock_sto \<Rightarrow> 6 | _ \<Rightarrow> 0)
        24 (\<lambda>k w. w) \<lparr>word = waiting_sto, issued = []\<rparr>
       = Inr (Some True,
              \<lparr>word = waking_sto,
               issued = [(waiting_run, waking_run, False), (waiting_sto, waking_sto, True)]\<rparr>)"
    by (simp add: wake_impl_cas_def wake_mask_ok_def possible_states_mask_def guarded_cas_def
        in_mask_def disturbed_def compare_exchange_strong_def)
  from wake_impl_cas_sequence [OF run] run show ?thesis
    by simp
qed

subsection \<open>The cputime estimator\<close>

lemma recover_high_int:
  fixes R D :: int
  assumes R: "0 \<le> R" "R < 2^64" and D: "0 \<le> D" "D < 2^41"
  defines "ref \<equiv> (R + D) mod 2^64"
  defines "V \<equiv> (R div 2^10 mod 2^32) * 2^10"
  shows "(if ref mod 2^42 < V then (ref div 2^42 * 2^42 - 2^42) mod 2^64 else ref div 2^42 * 2^42)
           = R div 2^42 * 2^42"
proof -
  define H where "H = R div 2^42"
  define L where "L = R mod 2^42"
  have RHL: "R = 2^42 * H + L" by (simp add: H_def L_def)
  have L: "0 \<le> L" "L < 2^42" by (simp_all add: L_def)
  have H0: "0 \<le> H" using R by (simp add: H_def pos_imp_zdiv_nonneg_iff)
  have H22: "H < 2^22" using R RHL L by simp
  note H = H0 H22
  define l where "l = L mod 2^10"
  have l: "0 \<le> l" "l < 2^10" by (simp_all add: l_def)
  have Ldiv: "L = 2^10 * (L div 2^10) + l" by (simp add: l_def)
  have Lq0: "0 \<le> L div 2^10" using L by (simp add: pos_imp_zdiv_nonneg_iff)
  have Lq1: "L div 2^10 < 2^32" using L Ldiv l by simp
  note Lq = Lq0 Lq1
  have "R = 2^10 * (2^32 * H + L div 2^10) + l"
    using RHL Ldiv by simp
  then have Rdiv: "R div 2^10 = 2^32 * H + L div 2^10"
    using l by (intro int_div_pos_eq) (simp_all, linarith?)
  have "R div 2^10 mod 2^32 = L div 2^10"
    unfolding Rdiv using Lq by (intro int_mod_pos_eq [of _ _ H]) (simp_all, linarith?)
  then have V: "V = L - l" unfolding V_def using Ldiv by simp
  show ?thesis
  proof (cases "L + D < 2^42")
    case True
    have "R + D < 2^64" using RHL H True by simp
    then have ref: "ref = 2^42 * H + (L + D)" unfolding ref_def using R D RHL by simp
    have "ref div 2^42 = H" unfolding ref using True L D by (intro int_div_pos_eq) (simp_all, linarith?)
    moreover have "ref mod 2^42 = L + D" unfolding ref using True L D by (intro int_mod_pos_eq [of _ _ H]) (simp_all, linarith?)
    ultimately show ?thesis unfolding H_def [symmetric] using V l D by simp
  next
    case False
    define r where "r = L + D - 2^42"
    have r: "0 \<le> r" "r < 2^41" "r < V" using False L D V l by (simp_all add: r_def)
    show ?thesis
    proof (cases "H + 1 < 2^22")
      case True
      have "R + D = 2^42 * (H + 1) + r" using RHL by (simp add: r_def)
      moreover from this have "R + D < 2^64" using True r by simp
      ultimately have ref: "ref = 2^42 * (H + 1) + r" unfolding ref_def using R D by simp
      have "ref div 2^42 = H + 1" unfolding ref using r by (intro int_div_pos_eq) (simp_all, linarith?)
      moreover have "ref mod 2^42 = r" unfolding ref using r by (intro int_mod_pos_eq [of _ _ "H + 1"]) (simp_all, linarith?)
      moreover have "(2^42 * H) mod 2^64 = 2^42 * (H::int)" using H by simp
      ultimately show ?thesis unfolding H_def [symmetric] using r by (simp add: algebra_simps)
    next
      case False
      then have H22: "H = 2^22 - 1" using H by simp
      have "R + D = 2^64 * 1 + r" using RHL by (simp add: r_def H22)
      then have ref: "ref = r" unfolding ref_def using r by (intro int_mod_pos_eq [of _ _ 1]) (simp_all, linarith?)
      have "ref div 2^42 = 0" unfolding ref using r by simp
      moreover have "ref mod 2^42 = r" unfolding ref using r by simp
      ultimately show ?thesis unfolding H_def [symmetric] using r H22 by simp
    qed
  qed
qed


lemma ho_val: "((- 1) AND NOT (drop_bit (64 - 32 - 10) (- 1)) :: 64 word) = NOT (mask 42)"
  by (simp add: bit_eq_iff bit_simps)

lemma and_not_mask42: "(x::64 word) AND NOT (mask 42) = push_bit 42 (drop_bit 42 x)"
  by (auto simp add: bit_eq_iff bit_simps)

lemma and_mask42: "(x::64 word) AND NOT (NOT (mask 42)) = take_bit 42 x"
  by (simp add: take_bit_eq_mask)

lemma stored_bits: "(ucast ((ucast (signed_drop_bit 10 (x::64 word))) :: 32 word) :: 64 word) = take_bit 32 (drop_bit 10 x)"
  by (auto simp add: bit_eq_iff bit_simps)

lemmas int_bit_arith =
  push_bit_eq_mult [where 'a = int] take_bit_eq_mod [where 'a = int] drop_bit_eq_div [where 'a = int]

lemma uint64_idem: "uint (x::64 word) mod 18446744073709551616 = uint x"
  using uint_idem [of x] by simp

lemma uint_v: "uint (push_bit 10 (take_bit 32 (drop_bit 10 (x::64 word)))) = (uint x div 2^10 mod 2^32) * 2^10"
proof -
  have "uint (take_bit 32 (drop_bit 10 x)) = uint x div 2^10 mod 2^32"
    by (simp add: unsigned_take_bit_eq unsigned_drop_bit_eq int_bit_arith uint64_idem)
  moreover have "(uint x div 2^10 mod 2^32) * 2^10 < 2^64"
  proof -
    have "uint x div 2^10 mod 2^32 < 2^32" by simp
    then show ?thesis by simp
  qed
  moreover have "0 \<le> (uint x div 2^10 mod 2^32) * 2^10" by simp
  ultimately show ?thesis
    by (simp add: unsigned_push_bit_eq int_bit_arith)
qed

lemma uint_hi: "uint (push_bit 42 (drop_bit 42 (x::64 word))) = uint x div 2^42 * 2^42"
proof -
  have "uint x < 2^64" using uint_lt2p [of x] by simp
  moreover have "uint x div 2^42 * 2^42 = uint x - uint x mod 2^42"
    by (simp only: minus_mod_eq_div_mult)
  moreover have "0 \<le> uint x mod 2^42" by simp
  ultimately have "uint x div 2^42 * 2^42 < 2^64" by linarith
  moreover have "0 \<le> uint x div 2^42 * 2^42" by (simp add: pos_imp_zdiv_nonneg_iff)
  ultimately show ?thesis
    by (simp add: unsigned_push_bit_eq unsigned_drop_bit_eq int_bit_arith uint64_idem)
qed

lemma recombine: "push_bit 42 (drop_bit 42 x) OR push_bit 10 (take_bit 32 (drop_bit 10 x)) = (x::64 word) AND NOT (mask 10)"
proof (rule bit_word_eqI)
  fix n assume "n < LENGTH(64)"
  then show "bit (push_bit 42 (drop_bit 42 x) OR push_bit 10 (take_bit 32 (drop_bit 10 x))) n = bit (x AND NOT (mask 10)) n"
    by (cases "n < 10"; cases "n < 42") (auto simp add: bit_simps)
qed

lemma recover:
  fixes x d :: "64 word"
  assumes d: "uint d < 2^41"
  shows "(if take_bit 42 (x + d) < push_bit 10 (take_bit 32 (drop_bit 10 x))
          then push_bit 42 (drop_bit 42 (x + d)) - push_bit 42 1
          else push_bit 42 (drop_bit 42 (x + d))) = push_bit 42 (drop_bit 42 x)"
proof -
  have ref: "uint (x + d) = (uint x + uint d) mod 2^64" by (simp add: uint_word_ariths)
  have lo: "uint (take_bit 42 (x + d)) = (uint x + uint d) mod 2^64 mod 2^42"
    by (simp add: unsigned_take_bit_eq int_bit_arith uint_word_ariths)
  have hi: "uint (push_bit 42 (drop_bit 42 (x + d))) = (uint x + uint d) mod 2^64 div 2^42 * 2^42"
    by (simp only: uint_hi ref)
  have dec: "uint (push_bit 42 (drop_bit 42 (x + d)) - push_bit 42 1)
      = ((uint x + uint d) mod 2^64 div 2^42 * 2^42 - 2^42) mod 2^64"
    by (simp only: uint_word_ariths hi) simp
  have "uint (if take_bit 42 (x + d) < push_bit 10 (take_bit 32 (drop_bit 10 x))
          then push_bit 42 (drop_bit 42 (x + d)) - push_bit 42 1
          else push_bit 42 (drop_bit 42 (x + d)))
     = (if (uint x + uint d) mod 2^64 mod 2^42 < (uint x div 2^10 mod 2^32) * 2^10
        then ((uint x + uint d) mod 2^64 div 2^42 * 2^42 - 2^42) mod 2^64
        else (uint x + uint d) mod 2^64 div 2^42 * 2^42)"
    by (simp only: word_less_def lo uint_v hi dec if_distrib [of uint])
  also have "\<dots> = uint x div 2^42 * 2^42"
    using recover_high_int [of "uint x" "uint d"] d uint_lt2p [of x] by simp
  also have "\<dots> = uint (push_bit 42 (drop_bit 42 x))" by (simp only: uint_hi)
  finally show ?thesis by (simp only: word_uint_eq_iff)
qed


lemma stored_low: "(ucast (ucast ((ucast (a :: 32 word) :: 64 word) OR push_bit 32 (ucast (b :: 32 word))) :: 32 word) :: 64 word) = ucast a"
  by (rule bit_word_eqI) (auto simp add: bit_simps dest: bit_imp_le_length)

lemma stored_high: "drop_bit 32 ((ucast (a :: 32 word) :: 64 word) OR push_bit 32 (ucast (b :: 32 word))) = ucast b"
  by (rule bit_word_eqI) (auto simp add: bit_simps dest: bit_imp_le_length)

lemma signed_gap:
  fixes a b :: "64 word"
  assumes "sint a \<le> sint b" "sint b - sint a < 2^41"
  shows "uint (b - a) < 2^41"
proof -
  have "uint (b - a) = take_bit 64 (uint b - uint a)" by (simp add: uint_word_arith_bintrs)
  also have "\<dots> = take_bit 64 (take_bit 64 (sint b) - take_bit 64 (sint a))"
    by (simp add: uint_sint)
  also have "\<dots> = take_bit 64 (sint b - sint a)" by (simp add: take_bit_diff)
  also have "\<dots> = sint b - sint a"
    using assms by (simp add: take_bit_int_eq_self)
  finally show ?thesis using assms by simp
qed

lemma recover_ref:
  fixes x ref :: "64 word"
  assumes "sint x \<le> sint ref" "sint ref - sint x < 2^41"
  shows "(if take_bit 42 ref < push_bit 10 (take_bit 32 (drop_bit 10 x))
          then push_bit 42 (drop_bit 42 ref) - push_bit 42 1
          else push_bit 42 (drop_bit 42 ref)) = push_bit 42 (drop_bit 42 x)"
proof -
  have "x + (ref - x) = ref" by simp
  with recover [OF signed_gap [OF assms], of x] show ?thesis by (simp only:)
qed

text \<open>
  Claim C6. When the estimator read by \<open>cputime_estimator_get\<close> is the one stored by
  \<open>cputime_estimator_set rs tc\<close>, and each reference value (the current uptime, the
  thread's \<open>_total_cpu_time\<close>) is at least the stored value and exceeds it by less
  than \<open>2 ^ 41\<close> ns, the result is the stored pair with the low \<open>cputime_shift\<close>
  bits cleared. The hypotheses do not ask the high-order bits of the reference and of
  the stored value to agree, so the carry case is included.
\<close>

theorem cputime_estimator_roundtrip:
  assumes saved: "cputime_estimator t = cputime_estimator (cputime_estimator_set rs tc t0)"
    and rs: "sint rs \<le> sint now" "sint now - sint rs < 2^41"
    and tc: "sint tc \<le> sint (total_cpu_time t)" "sint (total_cpu_time t) - sint tc < 2^41"
  shows "cputime_estimator_get now t = (rs AND NOT (mask 10), tc AND NOT (mask 10))"
proof -
  have e: "cputime_estimator t =
      ucast (ucast (signed_drop_bit 10 rs) :: 32 word) OR push_bit 32 (ucast (ucast (signed_drop_bit 10 tc) :: 32 word))"
    unfolding saved by (simp add: cputime_estimator_set_def cputime_shift_def)
  have lo: "push_bit 10 (ucast (ucast (cputime_estimator t) :: 32 word) :: 64 word) = push_bit 10 (take_bit 32 (drop_bit 10 rs))"
    unfolding e by (simp only: stored_low, simp only: stored_bits)
  have hi: "push_bit 10 (drop_bit 32 (cputime_estimator t)) = push_bit 10 (take_bit 32 (drop_bit 10 tc))"
    unfolding e by (simp only: stored_high, simp only: stored_bits)
  have n: "(32::nat) + 10 = 42" by simp
  show ?thesis
    unfolding cputime_estimator_get_def Let_def
    unfolding cputime_shift_def ho_def lo hi ho_val and_not_mask42 and_mask42 n
    unfolding recover_ref [OF rs] recover_ref [OF tc] recombine
    by (rule refl)
qed

theorem cputime_estimator_roundtrip_witness:
  "cputime_estimator_get 4398046511109
     ((cputime_estimator_set 4398046511103 4398046509104
         \<lparr>st = running, stage_of = None, joiner = None, total_cpu_time = 0,
          cputime_estimator = 0\<rparr>)\<lparr>total_cpu_time := 4398046511204\<rparr>)
     = (4398046510080, 4398046509056)"
  using cputime_estimator_roundtrip [of
      "(cputime_estimator_set 4398046511103 4398046509104
         \<lparr>st = running, stage_of = None, joiner = None, total_cpu_time = 0,
          cputime_estimator = 0\<rparr>)\<lparr>total_cpu_time := 4398046511204\<rparr>"
      4398046511103 4398046509104
      "\<lparr>st = running, stage_of = None, joiner = None, total_cpu_time = 0,
        cputime_estimator = 0\<rparr>"
      4398046511109]
  by (simp add: cputime_estimator_set_def mask_eq_exp_minus_1)

subsection \<open>\<open>stage::define\<close>\<close>

lemma sum_list_bump:
  fixes xs :: "int list"
  shows "i < length xs \<Longrightarrow> sum_list (xs[i := xs ! i + 1]) = sum_list xs + 1"
proof (induction xs arbitrary: i)
  case Nil
  then show ?case by simp
next
  case (Cons x xs)
  then show ?case by (cases i) simp_all
qed

lemma list_all_bump:
  fixes xs :: "int list"
  shows "list_all (\<lambda>r. 0 \<le> r) xs \<Longrightarrow> i < length xs
    \<Longrightarrow> list_all (\<lambda>r. 0 \<le> r) (xs[i := xs ! i + 1])"
  by (auto simp: list_all_length nth_list_update)

lemma counted_assign_cpu:
  "counted n k m a \<Longrightarrow> 0 < k \<Longrightarrow> counted n k (Suc m) (assign_cpu c a)"
  by (simp add: counted_def assign_cpu_def Let_def sum_list_bump list_all_bump)

lemma counted_fold:
  "counted n k 0 a \<Longrightarrow> 0 < k \<Longrightarrow> counted n k m (fold assign_cpu [0..<m] a)"
  by (induction m) (simp_all add: counted_assign_cpu)

lemma new_assignment_ok:
  assumes "0 < k" "k \<le> n"
  shows "\<exists>da. new_assignment n k = Inr da \<and> stages da = k \<and> cpus da = n"
proof -
  let ?a0 = "\<lparr>reqs = replicate k 0, cpus_per_stage = replicate k {}, cpus = n, stages = k\<rparr>"
  have "counted n k 0 ?a0" by (simp add: counted_def list_all_iff sum_list_replicate)
  then have "counted n k n (fold assign_cpu [0..<n] ?a0)" using assms by (simp add: counted_fold)
  then show ?thesis using assms
    by (simp add: new_assignment_def Let_def validate_reqs_def counted_def)
qed

text \<open>
  Claim C8, as amended. \<open>stage::define\<close> returns the null handle exactly when the
  counter \<open>stages_next\<close> has reached \<open>max_stages\<close>, the length of the array.
  Otherwise, when the new stage count does not exceed the number of CPUs, it returns
  the slot whose number is the old counter, with that number as its id and the given
  name, increments the counter, publishes the assignment built for all CPUs and the
  new stage count, records the time, and hands the previous assignment to
  \<open>rcu_dispose\<close>. When the counter has not reached \<open>max_stages\<close> and the new
  stage count exceeds the number of CPUs, the assertion \<open>stages <= cpus\<close> of the
  constructor fails and \<open>stage::define\<close> does not return.
\<close>

theorem stage_define_result:
  "((\<exists>w'. stage_define name clock w = Inr (None, w')) \<longleftrightarrow> stages_next w = length (stages_arr w))
   \<and> (stages_next w < length (stages_arr w) \<and> stages_next w + 1 \<le> ncpus w \<longrightarrow>
        (\<exists>da. new_assignment (ncpus w) (stages_next w + 1) = Inr da
            \<and> stages da = stages_next w + 1 \<and> cpus da = ncpus w
            \<and> stage_define name clock w =
                Inr (Some (stages_next w),
                     w\<lparr>stages_arr := (stages_arr w)[stages_next w :=
                                        (stages_arr w ! stages_next w)\<lparr>stage_id := stages_next w, stage_name := name\<rparr>],
                       stages_next := stages_next w + 1,
                       published := Some da,
                       assignment_creation := clock,
                       disposed := disposed w @ [published w]\<rparr>)))
   \<and> (stages_next w < length (stages_arr w) \<and> \<not> stages_next w + 1 \<le> ncpus w \<longrightarrow>
        stage_define name clock w = Inl assertion_failed)"
proof (intro conjI impI)
  show "(\<exists>w'. stage_define name clock w = Inr (None, w')) \<longleftrightarrow> stages_next w = length (stages_arr w)"
    by (auto simp: stage_define_def Let_def split: sum.splits)
next
  assume a: "stages_next w < length (stages_arr w) \<and> stages_next w + 1 \<le> ncpus w"
  then obtain da where da: "new_assignment (ncpus w) (stages_next w + 1) = Inr da"
    "stages da = stages_next w + 1" "cpus da = ncpus w"
    using new_assignment_ok [of "stages_next w + 1" "ncpus w"] by auto
  with a show "\<exists>da. new_assignment (ncpus w) (stages_next w + 1) = Inr da
            \<and> stages da = stages_next w + 1 \<and> cpus da = ncpus w
            \<and> stage_define name clock w =
                Inr (Some (stages_next w),
                     w\<lparr>stages_arr := (stages_arr w)[stages_next w :=
                                        (stages_arr w ! stages_next w)\<lparr>stage_id := stages_next w, stage_name := name\<rparr>],
                       stages_next := stages_next w + 1,
                       published := Some da,
                       assignment_creation := clock,
                       disposed := disposed w @ [published w]\<rparr>)"
    by (simp add: stage_define_def Let_def)
next
  assume "stages_next w < length (stages_arr w) \<and> \<not> stages_next w + 1 \<le> ncpus w"
  then show "stage_define name clock w = Inl assertion_failed"
    by (simp add: stage_define_def new_assignment_def Let_def)
qed

theorem stage_define_result_witness:
  "stage_define ''net'' 7
     \<lparr>stages_arr = replicate 8 \<lparr>stage_id = 0, stage_name = [], c_in = 0\<rparr>, stages_next = 1,
      published = None, assignment_creation = 0, ncpus = 4, disposed = []\<rparr>
   = Inr (Some 1,
          \<lparr>stages_arr = (replicate 8 \<lparr>stage_id = 0, stage_name = [], c_in = 0\<rparr>)
                           [1 := \<lparr>stage_id = 1, stage_name = ''net'', c_in = 0\<rparr>],
           stages_next = 2,
           published = Some \<lparr>reqs = [2, 2], cpus_per_stage = [{2, 0}, {3, 1}], cpus = 4,
                             stages = 2\<rparr>,
           assignment_creation = 7, ncpus = 4, disposed = [None]\<rparr>)
   \<and> stage_define ''disk'' 9
     \<lparr>stages_arr = replicate 8 \<lparr>stage_id = 0, stage_name = [], c_in = 0\<rparr>, stages_next = 2,
      published = None, assignment_creation = 0, ncpus = 2, disposed = []\<rparr>
   = Inl assertion_failed"
proof -
  let ?w = "\<lparr>stages_arr = replicate 8 \<lparr>stage_id = 0, stage_name = [], c_in = 0\<rparr>,
             stages_next = 1, published = None, assignment_creation = 0, ncpus = 4,
             disposed = []\<rparr>"
  let ?v = "\<lparr>stages_arr = replicate 8 \<lparr>stage_id = 0, stage_name = [], c_in = 0\<rparr>,
             stages_next = 2, published = None, assignment_creation = 0, ncpus = 2,
             disposed = []\<rparr>"
  have da: "new_assignment (ncpus ?w) (stages_next ?w + 1)
      = Inr \<lparr>reqs = [2, 2], cpus_per_stage = [{2, 0}, {3, 1}], cpus = 4, stages = 2\<rparr>"
    by code_simp
  have pre: "stages_next ?w < length (stages_arr ?w) \<and> stages_next ?w + 1 \<le> ncpus ?w"
    by simp
  from stage_define_result [of "''net''" 7 ?w, THEN conjunct2, THEN conjunct1, rule_format, OF pre]
  obtain d where d: "new_assignment (ncpus ?w) (stages_next ?w + 1) = Inr d"
    and r: "stage_define ''net'' 7 ?w =
              Inr (Some (stages_next ?w),
                   ?w\<lparr>stages_arr := (stages_arr ?w)[stages_next ?w :=
                                      (stages_arr ?w ! stages_next ?w)\<lparr>stage_id := stages_next ?w,
                                         stage_name := ''net''\<rparr>],
                      stages_next := stages_next ?w + 1,
                      published := Some d,
                      assignment_creation := 7,
                      disposed := disposed ?w @ [published ?w]\<rparr>)"
    by blast
  from d da have "d = \<lparr>reqs = [2, 2], cpus_per_stage = [{2, 0}, {3, 1}], cpus = 4, stages = 2\<rparr>"
    by simp
  with r have first: "stage_define ''net'' 7 ?w
   = Inr (Some 1,
          \<lparr>stages_arr = (replicate 8 \<lparr>stage_id = 0, stage_name = [], c_in = 0\<rparr>)
                           [1 := \<lparr>stage_id = 1, stage_name = ''net'', c_in = 0\<rparr>],
           stages_next = 2,
           published = Some \<lparr>reqs = [2, 2], cpus_per_stage = [{2, 0}, {3, 1}], cpus = 4,
                             stages = 2\<rparr>,
           assignment_creation = 7, ncpus = 4, disposed = [None]\<rparr>)"
    by simp
  have full: "stages_next ?v < length (stages_arr ?v) \<and> \<not> stages_next ?v + 1 \<le> ncpus ?v"
    by simp
  from stage_define_result [of "''disk''" 9 ?v, THEN conjunct2, THEN conjunct2, rule_format, OF full]
  have second: "stage_define ''disk'' 9 ?v = Inl assertion_failed" .
  from first second show ?thesis by (rule conjI)
qed

text \<open>
  Claim C8 as first stated, without the condition on the number of CPUs, fails: with
  one CPU and one stage defined, defining a second stage neither returns the null handle
  nor a stage, because the assertion \<open>stages <= cpus\<close> of the constructor fails.
\<close>

theorem stage_define_counterexample:
  "stages_next \<lparr>stages_arr = replicate 8 \<lparr>stage_id = 0, stage_name = [], c_in = 0\<rparr>, stages_next = 1,
       published = None, assignment_creation = 0, ncpus = 1, disposed = []\<rparr>
     \<noteq> length (stages_arr \<lparr>stages_arr = replicate 8 \<lparr>stage_id = 0, stage_name = [], c_in = 0\<rparr>, stages_next = 1,
       published = None, assignment_creation = 0, ncpus = 1, disposed = []\<rparr>)
   \<and> stage_define ''s'' 0
     \<lparr>stages_arr = replicate 8 \<lparr>stage_id = 0, stage_name = [], c_in = 0\<rparr>, stages_next = 1,
      published = None, assignment_creation = 0, ncpus = 1, disposed = []\<rparr>
   = Inl assertion_failed"
  by (simp add: stage_define_def new_assignment_def)

subsection \<open>\<open>cpu::reschedule_from_interrupt\<close>\<close>

lemma only_member:
  "distinct xs \<Longrightarrow> x \<in> set xs \<Longrightarrow> (length xs = 1) = (\<forall>t \<in> set xs. t = x)"
proof (cases xs)
  case Nil
  then show "x \<in> set xs \<Longrightarrow> ?thesis" by simp
next
  case (Cons a ys)
  assume "distinct xs" "x \<in> set xs"
  with Cons show ?thesis by (cases ys) auto
qed

lemma dequeue_one_keeps:
  "dequeue_one t w = Inr w' \<Longrightarrow> status_of w p = running
     \<Longrightarrow> status_of w' p = running \<and> current w' = current w"
  by (auto simp: dequeue_one_def compare_exchange_strong_def status_of_def set_status_def
      enqueue_def stage_count_def split: if_splits option.splits)

lemma dequeue_all_keeps:
  "dequeue_all inq w = Inr w' \<Longrightarrow> status_of w p = running
     \<Longrightarrow> status_of w' p = running \<and> current w' = current w"
proof (induction inq arbitrary: w)
  case Nil
  then show ?case by simp
next
  case (Cons t inq)
  then show ?case by (auto split: sum.splits dest: dequeue_one_keeps)
qed

lemma reschedule_account_running:
  assumes "reschedule_account now penalty w = Inr (running, w1)"
  shows "status_of w1 (current w1) = running"
proof -
  from assms obtain w0 where w0: "handle_incoming_wakeups (w\<lparr>need_reschedule := False\<rparr>) = Inr w0"
    by (auto simp: reschedule_account_def split: sum.splits)
  let ?w2 = "w0\<lparr>running_since := now\<rparr>"
  from assms w0 have p: "status_of ?w2 (current ?w2) = running"
    by (auto simp: reschedule_account_def Let_def split: sum.splits if_splits)
  with assms w0 obtain w3 where w3: "dequeue ?w2 = Inr w3"
    and w1: "\<exists>i. w1 = w3\<lparr>threads := (threads w3)
                 (current ?w2 := (threads w3 (current ?w2))\<lparr>total_cpu_time := i\<rparr>)\<rparr>"
    by (auto simp: reschedule_account_def Let_def split: sum.splits if_splits)
  from w3 have "dequeue_all (stagesched_incoming ?w2) (?w2\<lparr>stagesched_incoming := []\<rparr>) = Inr w3"
    by (simp add: dequeue_def split: if_splits)
  from dequeue_all_keeps [OF this, of "current ?w2"] p
  have "status_of w3 (current ?w2) = running \<and> current w3 = current ?w2"
    by (simp add: status_of_def)
  with w1 show ?thesis by (auto simp: status_of_def)
qed

text \<open>
  The scheduler maintains the invariant \<open>cpu_ok\<close> of its run queue. Handling the
  incoming wakeups and draining the stage queue only append threads that were not
  queued before, so the invariant passes from the state at the call to the state in
  which the outgoing thread, loaded as \<open>running\<close>, is decided upon; the switch to the
  head of the run queue hands it on to the state the call returns.
\<close>

lemma wake_one_ok:
  assumes "cpu_ok w" "wake_one t w = Inr w'"
  shows "cpu_ok w' \<and> current w' = current w \<and> idle_thread w' = idle_thread w"
proof (cases "t = current w")
  case True
  with assms show ?thesis
    by (auto simp: wake_one_def cpu_ok_def compare_exchange_strong_def status_of_def
        set_status_def split: if_splits)
next
  case False
  with assms(2) have s: "status_of w t = waking_sto"
    and w': "w' = stage_count t 1 (enqueue t (set_status t queued w))"
    by (auto simp: wake_one_def compare_exchange_strong_def split: if_splits)
  from assms(1) s have "t \<notin> set (runqueue w)" by (auto simp: cpu_ok_def)
  with assms(1) False show ?thesis unfolding w'
    by (auto simp: cpu_ok_def status_of_def set_status_def enqueue_def stage_count_def
        split: option.splits)
qed

lemma drain_queue_ok:
  "cpu_ok w \<Longrightarrow> drain_queue q w = Inr w'
     \<Longrightarrow> cpu_ok w' \<and> current w' = current w \<and> idle_thread w' = idle_thread w"
proof (induction q arbitrary: w)
  case Nil
  then show ?case by simp
next
  case (Cons t q)
  from Cons.prems(2) obtain w1 where 1: "wake_one t w = Inr w1" and 2: "drain_queue q w1 = Inr w'"
    by (auto split: sum.splits)
  from wake_one_ok [OF Cons.prems(1) 1] Cons.IH [OF _ 2] show ?case by simp
qed

lemma cpu_ok_incoming:
  "cpu_ok (w\<lparr>incoming_wakeups := q\<rparr>) = cpu_ok w"
  "cpu_ok (w\<lparr>incoming_wakeups_mask := m\<rparr>) = cpu_ok w"
  "cpu_ok (w\<lparr>need_reschedule := b\<rparr>) = cpu_ok w"
  "cpu_ok (w\<lparr>running_since := r\<rparr>) = cpu_ok w"
  "cpu_ok (w\<lparr>stagesched_incoming := i\<rparr>) = cpu_ok w"
  by (simp_all add: cpu_ok_def status_of_def)

lemma drain_sources_ok:
  "cpu_ok w \<Longrightarrow> drain_sources is w = Inr w'
     \<Longrightarrow> cpu_ok w' \<and> current w' = current w \<and> idle_thread w' = idle_thread w"
proof (induction "is" arbitrary: w)
  case Nil
  then show ?case by simp
next
  case (Cons i rest)
  let ?w0 = "w\<lparr>incoming_wakeups := (incoming_wakeups w)(i := [])\<rparr>"
  from Cons.prems(2) obtain w1 where 1: "drain_queue (incoming_wakeups w i) ?w0 = Inr w1"
    and 2: "drain_sources rest w1 = Inr w'"
    by (auto split: sum.splits)
  have "cpu_ok ?w0" using Cons.prems(1) by (simp add: cpu_ok_incoming)
  from drain_queue_ok [OF this 1] Cons.IH [OF _ 2] show ?case by simp
qed

lemma handle_incoming_wakeups_ok:
  assumes "cpu_ok w" "handle_incoming_wakeups w = Inr w'"
  shows "cpu_ok w' \<and> current w' = current w \<and> idle_thread w' = idle_thread w"
proof -
  let ?w0 = "w\<lparr>incoming_wakeups_mask := {}\<rparr>"
  have ok0: "cpu_ok ?w0" using assms(1) by (simp add: cpu_ok_incoming)
  show ?thesis
  proof (cases "incoming_wakeups_mask w = {}")
    case True
    with assms(2) have "w' = ?w0" by (simp add: handle_incoming_wakeups_def)
    with ok0 show ?thesis by simp
  next
    case False
    with assms(2) have "drain_sources (sorted_list_of_set (incoming_wakeups_mask w)) ?w0 = Inr w'"
      by (simp add: handle_incoming_wakeups_def)
    from drain_sources_ok [OF ok0 this] show ?thesis by simp
  qed
qed

lemma dequeue_one_ok:
  assumes "cpu_ok w" "dequeue_one t w = Inr w'" "status_of w (current w) = running"
  shows "cpu_ok w' \<and> current w' = current w \<and> idle_thread w' = idle_thread w
          \<and> status_of w' (current w') = running"
proof -
  from assms(2) have s: "status_of w t = stagemig_sto"
    and w': "w' = stage_count t 1 (enqueue t (set_status t queued w))"
    by (auto simp: dequeue_one_def compare_exchange_strong_def split: if_splits)
  from s assms(3) have ne: "t \<noteq> current w" by auto
  from assms(1) s have "t \<notin> set (runqueue w)" by (auto simp: cpu_ok_def)
  with assms(1,3) ne show ?thesis unfolding w'
    by (auto simp: cpu_ok_def status_of_def set_status_def enqueue_def stage_count_def
        split: option.splits)
qed

lemma dequeue_all_ok:
  "cpu_ok w \<Longrightarrow> dequeue_all inq w = Inr w' \<Longrightarrow> status_of w (current w) = running
     \<Longrightarrow> cpu_ok w' \<and> current w' = current w \<and> idle_thread w' = idle_thread w
          \<and> status_of w' (current w') = running"
proof (induction inq arbitrary: w)
  case Nil
  then show ?case by simp
next
  case (Cons t inq)
  from Cons.prems(2) obtain w1 where 1: "dequeue_one t w = Inr w1" and 2: "dequeue_all inq w1 = Inr w'"
    by (auto split: sum.splits)
  from dequeue_one_ok [OF Cons.prems(1) 1 Cons.prems(3)]
  have a: "cpu_ok w1" and b: "current w1 = current w" and c: "idle_thread w1 = idle_thread w"
    and d: "status_of w1 (current w1) = running"
    by blast+
  from Cons.IH [OF a 2 d] have "cpu_ok w' \<and> current w' = current w1 \<and> idle_thread w' = idle_thread w1
          \<and> status_of w' (current w') = running" .
  then show ?case unfolding b c .
qed

lemma reschedule_account_ok:
  assumes ok: "cpu_ok w" and acc: "reschedule_account now penalty w = Inr (running, w1)"
  shows "cpu_ok w1"
proof -
  from acc obtain w0 where w0: "handle_incoming_wakeups (w\<lparr>need_reschedule := False\<rparr>) = Inr w0"
    by (auto simp: reschedule_account_def split: sum.splits)
  have "cpu_ok (w\<lparr>need_reschedule := False\<rparr>)" using ok by (simp add: cpu_ok_incoming)
  from handle_incoming_wakeups_ok [OF this w0] have ok0: "cpu_ok w0" by simp
  let ?w2 = "w0\<lparr>running_since := now\<rparr>"
  have ok2: "cpu_ok ?w2" using ok0 by (simp add: cpu_ok_incoming)
  from acc w0 have p: "status_of ?w2 (current ?w2) = running"
    by (auto simp: reschedule_account_def Let_def split: sum.splits if_splits)
  with acc w0 obtain w3 where w3: "dequeue ?w2 = Inr w3"
    and w1: "\<exists>i. w1 = w3\<lparr>threads := (threads w3)
                 (current ?w2 := (threads w3 (current ?w2))\<lparr>total_cpu_time := i\<rparr>)\<rparr>"
    by (auto simp: reschedule_account_def Let_def split: sum.splits if_splits)
  let ?w2' = "?w2\<lparr>stagesched_incoming := []\<rparr>"
  from w3 have d: "dequeue_all (stagesched_incoming ?w2) ?w2' = Inr w3"
    by (simp add: dequeue_def split: if_splits)
  have ok2': "cpu_ok ?w2'" using ok2 by (simp add: cpu_ok_incoming)
  have p': "status_of ?w2' (current ?w2') = running" using p by (simp add: status_of_def)
  from dequeue_all_ok [OF ok2' d p'] have "cpu_ok w3" by simp
  with w1 show ?thesis by (auto simp: cpu_ok_def status_of_def)
qed

lemma switch_to_head_ok:
  assumes d: "distinct (runqueue w)" and q: "\<forall>t \<in> set (runqueue w). status_of w t = queued"
    and i: "idle_thread w \<in> set (runqueue w)" and sw: "switch_to_head now w = Inr w'"
  shows "cpu_ok w'"
proof -
  from sw obtain n rest where r: "runqueue w = n # rest"
    by (cases "runqueue w") (simp_all add: switch_to_head_def)
  from q r have n: "status_of w n = queued" by simp
  let ?th = "(threads w)(n := (cputime_estimator_set now (total_cpu_time (threads w n))
                                 (threads w n))\<lparr>st := running\<rparr>)"
  from sw r n have w': "w' = w\<lparr>runqueue := rest, threads := ?th, current := n\<rparr>"
    by (simp add: switch_to_head_def Let_def set_status_def)
  from d r have 1: "distinct rest" and 2: "n \<notin> set rest" by simp_all
  from i r have 3: "n \<noteq> idle_thread w \<longrightarrow> idle_thread w \<in> set rest" by auto
  have 4: "\<forall>t \<in> set rest. st (?th t) = queued"
  proof
    fix t assume t: "t \<in> set rest"
    with 2 have "t \<noteq> n" by auto
    moreover from t r q have "status_of w t = queued" by simp
    ultimately show "st (?th t) = queued" by (simp add: status_of_def)
  qed
  from 1 2 3 4 show ?thesis unfolding w' cpu_ok_def status_of_def by simp
qed

lemma reschedule_switch_ok:
  assumes ok: "cpu_ok w" and sw: "reschedule_switch now running w = Inr w'"
  shows "cpu_ok w'"
proof (cases "(current w = idle_thread w \<and> runqueue w = [])
    \<or> (current w \<noteq> idle_thread w \<and> length (runqueue w) = 1)")
  case True
  with sw have "w' = w" by (auto simp: reschedule_switch_def)
  with ok show ?thesis by simp
next
  case False
  let ?wq = "enqueue (current w) (set_status (current w) queued w)"
  from False sw have h: "switch_to_head now ?wq = Inr w'"
    by (auto simp: reschedule_switch_def Let_def)
  have r: "runqueue ?wq = runqueue w @ [current w]" and i: "idle_thread ?wq = idle_thread w"
    by (simp_all add: enqueue_def set_status_def)
  from ok have 1: "distinct (runqueue ?wq)" unfolding r by (simp add: cpu_ok_def)
  from ok have 2: "idle_thread ?wq \<in> set (runqueue ?wq)" unfolding r i
    by (auto simp: cpu_ok_def)
  from ok have 3: "\<forall>t \<in> set (runqueue ?wq). status_of ?wq t = queued" unfolding r
    by (simp add: cpu_ok_def status_of_def enqueue_def set_status_def)
  from 1 3 2 h show ?thesis by (rule switch_to_head_ok)
qed

lemma reschedule_keeps_invariant:
  assumes "cpu_ok w" "reschedule_account now penalty w = Inr (running, w1)"
    and "reschedule_from_interrupt now penalty w = Inr w'"
  shows "cpu_ok w1 \<and> cpu_ok w'"
proof -
  have ok1: "cpu_ok w1" using assms(1,2) by (rule reschedule_account_ok)
  have "reschedule_switch now running w1 = Inr w'"
    using assms(2,3) by (simp add: reschedule_from_interrupt_def)
  with ok1 have "cpu_ok w'" by (rule reschedule_switch_ok)
  with ok1 show ?thesis by simp
qed

text \<open>
  Claim C1, as amended. Take a call of \<open>reschedule_from_interrupt\<close> whose outgoing
  thread \<open>p\<close> is loaded as \<open>running\<close>, and let \<open>w1\<close> be the state in which the
  decision about \<open>p\<close> is taken, after the incoming wakeups and the stage queue have
  been handled. Suppose that \<open>w1\<close> satisfies the invariant \<open>cpu_ok\<close>: the idle thread of
  the CPU is the current thread or is on the run queue, and the run queue has no
  duplicates and holds only threads of status \<open>queued\<close>, none of them the current
  thread. Then \<open>p\<close> still has status \<open>running\<close> in \<open>w1\<close>, and the call returns
  \<open>w1\<close> itself (no status change, no enqueue, no switch) if and only if \<open>p\<close> is the
  idle thread and the run queue is empty, or \<open>p\<close> is not the idle thread and every
  queued thread is the idle thread. In every other case \<open>p\<close> gets status \<open>queued\<close> and
  is appended to the run queue, whose head \<open>n\<close> is taken off and becomes the running,
  current thread. By \<open>reschedule_account_ok\<close> the invariant holds in \<open>w1\<close> whenever
  it holds in the state at the call.
\<close>

theorem reschedule_running:
  assumes acc: "reschedule_account now penalty w = Inr (running, w1)" and ok: "cpu_ok w1"
  shows "status_of w1 (current w1) = running
    \<and> (if (current w1 = idle_thread w1 \<and> runqueue w1 = [])
           \<or> (current w1 \<noteq> idle_thread w1 \<and> (\<forall>t \<in> set (runqueue w1). t = idle_thread w1))
        then reschedule_from_interrupt now penalty w = Inr w1
        else (\<exists>n rest. runqueue w1 = n # rest
               \<and> reschedule_from_interrupt now penalty w =
                   Inr (w1\<lparr>threads := (threads w1)
                             (current w1 := (threads w1 (current w1))\<lparr>st := queued\<rparr>,
                              n := (cputime_estimator_set now (total_cpu_time (threads w1 n))
                                      (threads w1 n))\<lparr>st := running\<rparr>),
                           runqueue := rest @ [current w1],
                           current := n\<rparr>)))"
    (is "_ \<and> (if ?keep then ?stay else ?go)")
proof -
  have r: "reschedule_from_interrupt now penalty w = reschedule_switch now running w1"
    by (simp add: reschedule_from_interrupt_def acc)
  have go: ?go if "runqueue w1 = n # rest"
    and "\<not> (current w1 = idle_thread w1 \<and> runqueue w1 = [])"
    and "\<not> (current w1 \<noteq> idle_thread w1 \<and> length (runqueue w1) = 1)" for n rest
  proof -
    from ok that(1) have "status_of w1 n = queued" "n \<noteq> current w1"
      by (auto simp: cpu_ok_def)
    with that show ?thesis
      by (auto simp add: r reschedule_switch_def switch_to_head_def enqueue_def set_status_def
          status_of_def Let_def fun_upd_twist)
  qed
  have stay: ?stay if "(current w1 = idle_thread w1 \<and> runqueue w1 = [])
      \<or> (current w1 \<noteq> idle_thread w1 \<and> length (runqueue w1) = 1)"
    using that by (auto simp add: r reschedule_switch_def)
  note reschedule_account_running [OF acc]
  moreover have "if ?keep then ?stay else ?go"
  proof (cases "current w1 = idle_thread w1")
    case True
    show ?thesis
    proof (cases "runqueue w1")
      case Nil
      with True have ?keep by simp
      moreover have ?stay using True Nil by (intro stay) simp
      ultimately show ?thesis by (simp only: if_True)
    next
      case (Cons n rest)
      with True have "\<not> ?keep" by simp
      moreover have ?go using True Cons by (intro go [of n rest]) simp_all
      ultimately show ?thesis by (simp only: if_False)
    qed
  next
    case False
    with ok have d: "distinct (runqueue w1)" and i: "idle_thread w1 \<in> set (runqueue w1)"
      by (auto simp: cpu_ok_def)
    note one = only_member [OF d i]
    from i obtain n rest where Cons: "runqueue w1 = n # rest" by (cases "runqueue w1") auto
    show ?thesis
    proof (cases "length (runqueue w1) = 1")
      case True
      with False one have ?keep by simp
      moreover have ?stay using False True by (intro stay) simp
      ultimately show ?thesis by (simp only: if_True)
    next
      case no: False
      with one False have "\<not> ?keep" by simp
      moreover have ?go using False no Cons by (intro go [of n rest]) simp_all
      ultimately show ?thesis by (simp only: if_False)
    qed
  qed
  ultimately show ?thesis by (rule conjI)
qed

theorem reschedule_running_witness:
  "(case reschedule_from_interrupt 5000 1
          \<lparr>threads = (\<lambda>t. \<lparr>st = (if t = 1 then running else queued), stage_of = None,
                        joiner = None, total_cpu_time = 0, cputime_estimator = 0\<rparr>),
        stage_c_in = (\<lambda>sg. 0), idle_thread = 0, runqueue = [0, 2], running_since = 1000,
        incoming_wakeups_mask = {}, incoming_wakeups = (\<lambda>i. []),
        stagesched_incoming = [], current = 1, need_reschedule = True\<rparr> of
      Inl e \<Rightarrow> False
    | Inr w' \<Rightarrow> current w' = 0 \<and> runqueue w' = [2, 1] \<and> status_of w' 1 = queued
                \<and> status_of w' 0 = running)"
proof -
  let ?W = "\<lparr>threads = (\<lambda>t. \<lparr>st = (if t = 1 then running else queued), stage_of = None,
                        joiner = None, total_cpu_time = 0, cputime_estimator = 0\<rparr>),
        stage_c_in = (\<lambda>sg. 0), idle_thread = 0, runqueue = [0, 2], running_since = 1000,
        incoming_wakeups_mask = {}, incoming_wakeups = (\<lambda>i. []),
        stagesched_incoming = [], current = 1, need_reschedule = True\<rparr>"
  let ?W1 = "?W\<lparr>threads := (threads ?W)(1 := (threads ?W 1)\<lparr>total_cpu_time := 4000\<rparr>),
      running_since := 5000, need_reschedule := False\<rparr>"
  have acc: "reschedule_account 5000 1 ?W = Inr (running, ?W1)"
    by (simp add: reschedule_account_def handle_incoming_wakeups_def dequeue_def status_of_def
        Let_def word_sle_eq)
  have ok: "cpu_ok ?W1" by (simp add: cpu_ok_def status_of_def)
  from reschedule_running [OF acc ok] show ?thesis
    by (simp add: status_of_def)
qed

text \<open>
  Claim C1 as the specification states it, without the invariant, does not hold.
  Before the idle thread of a CPU is started it is not on the run queue: here the
  idle thread 0 is created but \<open>unstarted\<close>, thread 1 is running and the run queue
  holds the queued thread 2, which is not the idle thread. Thread 1 is neither the
  idle thread nor the only non-idle thread of the CPU, yet the code, which tests
  \<open>runqueue.size() == 1\<close>, keeps it running: the call returns the state \<open>w1\<close> of
  its first part, with thread 1 current and thread 2 still alone on the run queue.
\<close>

theorem reschedule_before_idle_counterexample:
  "(case reschedule_account 5000 1
            \<lparr>threads = (\<lambda>t. \<lparr>st = (if t = 1 then running else if t = 2 then queued
                                   else unstarted),
                              stage_of = None, joiner = None, total_cpu_time = 0,
                              cputime_estimator = 0\<rparr>),
              stage_c_in = (\<lambda>sg. 0), idle_thread = 0, runqueue = [2], running_since = 1000,
              incoming_wakeups_mask = {}, incoming_wakeups = (\<lambda>i. []),
              stagesched_incoming = [], current = 1, need_reschedule = True\<rparr> of
      Inl e \<Rightarrow> False
    | Inr (p_status, w1) \<Rightarrow>
        p_status = running \<and> current w1 = 1 \<and> status_of w1 1 = running
        \<and> idle_thread w1 = 0 \<and> status_of w1 0 = unstarted
        \<and> runqueue w1 = [2] \<and> status_of w1 2 = queued
        \<and> reschedule_from_interrupt 5000 1
            \<lparr>threads = (\<lambda>t. \<lparr>st = (if t = 1 then running else if t = 2 then queued
                                   else unstarted),
                              stage_of = None, joiner = None, total_cpu_time = 0,
                              cputime_estimator = 0\<rparr>),
              stage_c_in = (\<lambda>sg. 0), idle_thread = 0, runqueue = [2], running_since = 1000,
              incoming_wakeups_mask = {}, incoming_wakeups = (\<lambda>i. []),
              stagesched_incoming = [], current = 1, need_reschedule = True\<rparr> = Inr w1)"
  by (simp add: reschedule_from_interrupt_def reschedule_account_def
      handle_incoming_wakeups_def dequeue_def reschedule_switch_def status_of_def Let_def
      word_sle_eq)

subsection \<open>\<open>thread::yield\<close>\<close>

lemma priority_ignores_set_priority:
  "priority (set_priority pr t) = priority_default"
  by (simp add: priority_def)

text \<open>
  Claim C5 fails on the code. Thread 1 runs on a CPU whose idle thread is thread 0; the
  run queue holds the idle thread at its head, then thread 2; no wakeup is pending.
  After \<open>yield\<close> has handled the incoming wakeups the head of the run queue is the
  idle thread, yet \<open>yield\<close> calls the scheduler: \<open>priority()\<close> returns
  \<open>priority_default\<close> for every thread, so the test against \<open>priority_idle\<close> never
  holds. The caller is queued behind thread 2 and the CPU switches to the idle thread.
\<close>

theorem yield_switches_to_idle:
  "(case handle_incoming_wakeups
          \<lparr>threads = (\<lambda>t. \<lparr>st = (if t = 1 then running else queued), stage_of = None,
                        joiner = None, total_cpu_time = 0, cputime_estimator = 0\<rparr>),
        stage_c_in = (\<lambda>sg. 0), idle_thread = 0, runqueue = [0, 2], running_since = 1000,
        incoming_wakeups_mask = {}, incoming_wakeups = (\<lambda>i. []),
        stagesched_incoming = [], current = 1, need_reschedule = True\<rparr> of
      Inl e \<Rightarrow> False
    | Inr w1 \<Rightarrow> runqueue w1 = [0, 2] \<and> hd (runqueue w1) = idle_thread w1 \<and> current w1 = 1
                \<and> status_of w1 1 = running)
   \<and> (case yield 5000 1
          \<lparr>threads = (\<lambda>t. \<lparr>st = (if t = 1 then running else queued), stage_of = None,
                        joiner = None, total_cpu_time = 0, cputime_estimator = 0\<rparr>),
        stage_c_in = (\<lambda>sg. 0), idle_thread = 0, runqueue = [0, 2], running_since = 1000,
        incoming_wakeups_mask = {}, incoming_wakeups = (\<lambda>i. []),
        stagesched_incoming = [], current = 1, need_reschedule = True\<rparr> of
      Inl e \<Rightarrow> False
    | Inr w' \<Rightarrow> current w' = 0 \<and> runqueue w' = [2, 1] \<and> status_of w' 1 = queued
                \<and> status_of w' 0 = running)"
  by (simp add: yield_def handle_incoming_wakeups_def reschedule_from_interrupt_def
      reschedule_account_def dequeue_def reschedule_switch_def switch_to_head_def enqueue_def
      set_status_def status_of_def priority_def Let_def word_sle_eq)

subsection \<open>\<open>timer_base::cancel\<close>\<close>

lemma set_timer_ok:
  "timers_ok w \<Longrightarrow> set_timer t time w = Inr w' \<Longrightarrow> timers_ok w'"
  by (auto simp: timers_ok_def set_timer_def push_back_def Let_def split: if_splits)

lemma fire_ok:
  "timers_ok w \<Longrightarrow> fire t w = Inr w' \<Longrightarrow> timers_ok w'"
  by (auto simp: timers_ok_def fire_def expire_def erase_def Let_def split: if_splits)

lemma cancel_ok:
  "timers_ok w \<Longrightarrow> cancel t w = Inr w' \<Longrightarrow> timers_ok w'"
  by (auto simp: timers_ok_def cancel_def erase_def Let_def split: if_splits)

text \<open>
  Claim C10. In a state that satisfies the link invariant, \<open>cancel\<close> returns with the
  timer in state \<open>free\<close> and linked into neither \<open>_active_timers\<close> nor the CPU's
  list, and a second \<open>cancel\<close> returns the same state. In any state, \<open>cancel\<close> of a
  timer whose state is \<open>free\<close> changes nothing.
\<close>

theorem cancel_idempotent:
  assumes ok: "timers_ok w"
  shows "(\<exists>w'. cancel t w = Inr w' \<and> tstate w' t = free \<and> t \<notin> set (active_timers w')
            \<and> t \<notin> cpu_timers w' \<and> cancel t w' = Inr w')
       \<and> (tstate w t = free \<longrightarrow> cancel t w = Inr w)"
proof
  from ok have d: "distinct (active_timers w)"
    and a: "(tstate w t = armed) = (t \<in> set (active_timers w))"
    and c: "t \<in> cpu_timers w \<longrightarrow> tstate w t = armed"
    by (simp_all add: timers_ok_def)
  show "\<exists>w'. cancel t w = Inr w' \<and> tstate w' t = free \<and> t \<notin> set (active_timers w')
            \<and> t \<notin> cpu_timers w' \<and> cancel t w' = Inr w'"
  proof (cases "tstate w t")
    case free
    with a c show ?thesis by (auto simp: cancel_def)
  next
    case armed
    with a d show ?thesis by (simp add: cancel_def erase_def)
  next
    case expired
    with a c show ?thesis by (auto simp: cancel_def)
  qed
  show "tstate w t = free \<longrightarrow> cancel t w = Inr w"
    by (simp add: cancel_def)
qed

theorem cancel_idempotent_witness:
  "(case cancel 3 \<lparr>tstate = (\<lambda>t. if t = 3 then armed else free), ttime = (\<lambda>t. 0),
                    active_timers = [3], cpu_timers = {3}\<rparr> of
      Inl e \<Rightarrow> False
    | Inr w' \<Rightarrow> tstate w' 3 = free \<and> active_timers w' = [] \<and> cpu_timers w' = {}
                \<and> cancel 3 w' = Inr w')"
proof -
  have ok: "timers_ok \<lparr>tstate = (\<lambda>t. if t = 3 then armed else free), ttime = (\<lambda>t. 0),
                        active_timers = [3], cpu_timers = {3}\<rparr>"
    by (auto simp: timers_ok_def)
  from cancel_idempotent [OF ok, of 3] show ?thesis
    by (auto simp: cancel_def erase_def)
qed

subsection \<open>\<open>assignment::transition_to\<close>\<close>

lemma transfer_loop_disjoint:
  "distinct fs \<Longrightarrow> set fs \<subseteq> F \<Longrightarrow> set fs \<inter> T = {}
    \<Longrightarrow> transfer_loop fs F T k = (F - set (take k fs), T \<union> set (take k fs), k - length fs)"
proof (induction fs arbitrary: F T k)
  case Nil
  then show ?case by simp
next
  case (Cons f fs)
  show ?case
  proof (cases k)
    case 0
    then show ?thesis by simp
  next
    case (Suc k')
    from Cons.prems have "distinct fs" "set fs \<subseteq> F - {f}" "set fs \<inter> insert f T = {}" "f \<notin> T"
      by auto
    with Cons.IH [of "F - {f}" "insert f T" k'] Suc show ?thesis
      by (auto simp: Let_def)
  qed
qed

lemma transfer_cpus_moves:
  assumes "f < length (cpus_per_stage a)" "t < length (cpus_per_stage a)"
    and "finite (cpus_per_stage a ! f)"
    and "cpus_per_stage a ! f \<inter> cpus_per_stage a ! t = {}"
    and "k \<le> card (cpus_per_stage a ! f)"
  shows "\<exists>M. M \<subseteq> cpus_per_stage a ! f \<and> card M = k
          \<and> transfer_cpus f t k a =
              Inr (a\<lparr>cpus_per_stage := (cpus_per_stage a)
                     [f := cpus_per_stage a ! f - M, t := cpus_per_stage a ! t \<union> M]\<rparr>)"
proof -
  let ?F = "cpus_per_stage a ! f" and ?T = "cpus_per_stage a ! t"
  let ?fs = "sorted_list_of_set ?F"
  let ?M = "set (take k ?fs)"
  have fs: "distinct ?fs" "set ?fs = ?F" "length ?fs = card ?F"
    using assms(3) by simp_all
  then have loop: "transfer_loop ?fs ?F ?T k = (?F - ?M, ?T \<union> ?M, k - length ?fs)"
    using assms(4) by (intro transfer_loop_disjoint) auto
  have "?M \<subseteq> ?F" using fs(2) by (metis set_take_subset)
  moreover have "card ?M = k"
    using fs assms(5) by (simp add: distinct_card distinct_take)
  ultimately show ?thesis
    using assms(1,2,5) fs(3) loop by (intro exI [of _ ?M]) (simp add: transfer_cpus_def Let_def)
qed

lemma sum_list_update_int:
  fixes xs :: "int list"
  shows "i < length xs \<Longrightarrow> sum_list (xs[i := v]) = sum_list xs - xs ! i + v"
proof (induction xs arbitrary: i)
  case Nil
  then show ?case by simp
next
  case (Cons x xs)
  then show ?case by (cases i) simp_all
qed

lemma inv_move:
  assumes inv: "transition_inv a0 nr d a"
    and nn: "\<forall>i< stages a0. 0 \<le> nr ! i"
    and f: "f < stages a0" and t: "t < stages a0"
    and df: "d ! f < 0" and dt: "0 < d ! t"
    and c: "c = min \<bar>d ! f\<bar> \<bar>d ! t\<bar>"
  shows "\<exists>a'. transfer_cpus f t (nat c) a = Inr a'
           \<and> transition_inv a0 nr (d[f := d ! f + c, t := d ! t - c]) a'"
proof -
  let ?n = "stages a0"
  let ?S = "cpus_per_stage a" and ?Z = "cpus_per_stage a0"
  from inv have len: "length d = ?n" "length ?S = ?n"
    and fin: "\<And>i. i < ?n \<Longrightarrow> finite (?S ! i)"
    and crd: "\<And>i. i < ?n \<Longrightarrow> int (card (?S ! i)) = nr ! i - d ! i"
    and dis: "\<And>i j. i < ?n \<Longrightarrow> j < ?n \<Longrightarrow> i \<noteq> j \<Longrightarrow> ?S ! i \<inter> ?S ! j = {}"
    and mono: "\<And>i. i < ?n \<Longrightarrow>
         (0 < nr ! i - reqs a0 ! i \<longrightarrow> ?Z ! i \<subseteq> ?S ! i \<and> 0 \<le> d ! i)
       \<and> (nr ! i - reqs a0 ! i < 0 \<longrightarrow> ?S ! i \<subseteq> ?Z ! i \<and> d ! i \<le> 0)
       \<and> (nr ! i - reqs a0 ! i = 0 \<longrightarrow> ?S ! i = ?Z ! i \<and> d ! i = 0)"
    and un: "(\<Union>i < ?n. ?S ! i) = (\<Union>i < ?n. ?Z ! i)"
    and sm: "sum_list d = 0"
    and same: "stages a = ?n" "cpus a = cpus a0" "reqs a = reqs a0"
    by (simp_all add: transition_inv_def)
  from df dt have ft: "f \<noteq> t" by auto
  from c df dt have c0: "0 < c" "c \<le> - d ! f" "c \<le> d ! t" by simp_all
  have "0 \<le> nr ! f" using nn f by simp
  then have "c \<le> int (card (?S ! f))"
    using crd [OF f] c0 by simp
  then have k: "nat c \<le> card (?S ! f)" using c0 by linarith
  from transfer_cpus_moves [of f a t "nat c"] f t len fin [OF f] dis [OF f t ft] k
  obtain M where M: "M \<subseteq> ?S ! f" "card M = nat c"
    and tr: "transfer_cpus f t (nat c) a =
              Inr (a\<lparr>cpus_per_stage := ?S[f := ?S ! f - M, t := ?S ! t \<union> M]\<rparr>)"
    by auto
  let ?S' = "?S[f := ?S ! f - M, t := ?S ! t \<union> M]"
  let ?d' = "d[f := d ! f + c, t := d ! t - c]"
  have Sf: "?S' ! f = ?S ! f - M" and St: "?S' ! t = ?S ! t \<union> M"
    and So: "\<And>i. i \<noteq> f \<Longrightarrow> i \<noteq> t \<Longrightarrow> ?S' ! i = ?S ! i"
    using f t len ft by simp_all
  have Df: "?d' ! f = d ! f + c" and Dt: "?d' ! t = d ! t - c"
    and Do: "\<And>i. i \<noteq> f \<Longrightarrow> i \<noteq> t \<Longrightarrow> ?d' ! i = d ! i"
    using f t len ft by simp_all
  have finM: "finite M" using M(1) fin [OF f] by (rule finite_subset)
  have MT: "M \<inter> ?S ! t = {}" using M(1) dis [OF f t ft] by auto
  have Mo: "M \<inter> ?S ! i = {}" if "i < ?n" "i \<noteq> f" for i
    using M(1) dis [OF f that(1)] that(2) by auto
  have sum: "sum_list ?d' = 0"
    using f t len ft sm by (simp add: sum_list_update_int)
  have fin': "finite (?S' ! i)" if "i < ?n" for i
  proof (cases "i = f \<or> i = t")
    case True
    then show ?thesis using fin [OF f] fin [OF t] finM Sf St by auto
  next
    case False
    then show ?thesis using fin [OF that] So by simp
  qed
  have cardf: "int (card (?S ! f - M)) = int (card (?S ! f)) - c"
  proof -
    have "card (?S ! f - M) = card (?S ! f) - nat c"
      using M finM by (simp add: card_Diff_subset)
    with k c0 show ?thesis by linarith
  qed
  have cardt: "int (card (?S ! t \<union> M)) = int (card (?S ! t)) + c"
  proof -
    have "card (?S ! t \<union> M) = card (?S ! t) + nat c"
      using M finM fin [OF t] MT by (simp add: card_Un_disjoint Int_commute)
    with c0 show ?thesis by linarith
  qed
  have crd': "int (card (?S' ! i)) = nr ! i - ?d' ! i" if "i < ?n" for i
  proof -
    consider "i = f" | "i = t" | "i \<noteq> f" "i \<noteq> t" by blast
    then show ?thesis
    proof cases
      case 1
      then show ?thesis using Sf Df cardf crd [OF f] by simp
    next
      case 2
      then show ?thesis using St Dt cardt crd [OF t] by simp
    next
      case 3
      then show ?thesis using So Do crd [OF that] by simp
    qed
  qed
  have dis': "?S' ! i \<inter> ?S' ! j = {}" if "i < ?n" "j < ?n" "i \<noteq> j" for i j
  proof -
    have sub: "?S' ! m \<subseteq> ?S ! m \<union> M" if "m < ?n" for m
    proof -
      consider "m = f" | "m = t" | "m \<noteq> f" "m \<noteq> t" by blast
      then show ?thesis by cases (use Sf St So in auto)
    qed
    have notM: "M \<inter> ?S' ! m = {}" if "m < ?n" "m \<noteq> t" for m
    proof (cases "m = f")
      case True
      then show ?thesis using Sf by auto
    next
      case False
      then show ?thesis using So [of m] that Mo [of m] by simp
    qed
    show ?thesis
    proof (cases "i = t")
      case True
      then have "j \<noteq> t" using that by simp
      have "?S ! t \<inter> ?S' ! j = {}"
        using sub [OF that(2)] dis [OF t that(2)] True that(3) MT by auto
      with notM [OF that(2) \<open>j \<noteq> t\<close>] True St show ?thesis by auto
    next
      case False
      show ?thesis
      proof (cases "j = t")
        case True
        have "?S ! t \<inter> ?S' ! i = {}"
          using sub [OF that(1)] dis [OF t that(1)] True that(3) MT by auto
        with notM [OF that(1) False] True St show ?thesis by auto
      next
        case jt: False
        have "?S' ! i \<subseteq> ?S ! i" using False Sf So [of i] by (cases "i = f") auto
        moreover have "?S' ! j \<subseteq> ?S ! j" using jt Sf So [of j] by (cases "j = f") auto
        ultimately show ?thesis using dis [OF that] by blast
      qed
    qed
  qed
  have mono': "(0 < nr ! i - reqs a0 ! i \<longrightarrow> ?Z ! i \<subseteq> ?S' ! i \<and> 0 \<le> ?d' ! i)
       \<and> (nr ! i - reqs a0 ! i < 0 \<longrightarrow> ?S' ! i \<subseteq> ?Z ! i \<and> ?d' ! i \<le> 0)
       \<and> (nr ! i - reqs a0 ! i = 0 \<longrightarrow> ?S' ! i = ?Z ! i \<and> ?d' ! i = 0)" if "i < ?n" for i
  proof -
    consider "i = f" | "i = t" | "i \<noteq> f" "i \<noteq> t" by blast
    then show ?thesis
    proof cases
      case 1
      with mono [OF f] df have "nr ! i - reqs a0 ! i < 0" "?S ! f \<subseteq> ?Z ! f" by auto
      with 1 Sf Df c0 show ?thesis by auto
    next
      case 2
      with mono [OF t] dt have "0 < nr ! i - reqs a0 ! i" "?Z ! t \<subseteq> ?S ! t" by auto
      with 2 St Dt c0 show ?thesis by auto
    next
      case 3
      with mono [OF that] So Do show ?thesis by simp
    qed
  qed
  have un': "(\<Union>i < ?n. ?S' ! i) = (\<Union>i < ?n. ?S ! i)"
  proof (intro equalityI subsetI)
    fix x assume "x \<in> (\<Union>i < ?n. ?S' ! i)"
    then obtain i where i: "i < ?n" "x \<in> ?S' ! i" by auto
    consider "i = f" | "i = t" | "i \<noteq> f" "i \<noteq> t" by blast
    then show "x \<in> (\<Union>i < ?n. ?S ! i)"
    proof cases
      case 1
      with i Sf f show ?thesis by auto
    next
      case 2
      with i St have "x \<in> ?S ! t \<or> x \<in> ?S ! f" using M(1) by auto
      with f t show ?thesis by auto
    next
      case 3
      with i So show ?thesis by auto
    qed
  next
    fix x assume "x \<in> (\<Union>i < ?n. ?S ! i)"
    then obtain i where i: "i < ?n" "x \<in> ?S ! i" by auto
    consider "i = f" | "i = t" | "i \<noteq> f" "i \<noteq> t" by blast
    then show "x \<in> (\<Union>i < ?n. ?S' ! i)"
    proof cases
      case 1
      with i have "x \<in> ?S' ! f \<or> x \<in> ?S' ! t" using Sf St by auto
      with f t show ?thesis by auto
    next
      case 2
      with i St t show ?thesis by auto
    next
      case 3
      with i So [of i] have "x \<in> ?S' ! i" by simp
      with i(1) show ?thesis by blast
    qed
  qed
  have "transition_inv a0 nr ?d' (a\<lparr>cpus_per_stage := ?S'\<rparr>)"
    unfolding transition_inv_def
    using same len sum fin' crd' dis' mono' un' un by simp
  with tr show ?thesis by blast
qed

lemma pair_step_inv:
  assumes inv: "transition_inv a0 nr d a"
    and nn: "\<forall>i < stages a0. 0 \<le> nr ! i"
    and si: "si < stages a0" and isi: "isi < stages a0"
  shows "\<exists>d' a'. pair_step si isi (d, a) = Inr (d', a') \<and> transition_inv a0 nr d' a'
           \<and> (\<forall>j. j \<noteq> si \<and> j \<noteq> isi \<longrightarrow> d' ! j = d ! j)
           \<and> (0 < d' ! si \<longrightarrow> 0 < d ! si) \<and> (d' ! si < 0 \<longrightarrow> d ! si < 0)
           \<and> (d ! si = 0 \<longrightarrow> d' = d)
           \<and> (isi \<noteq> si \<longrightarrow> (0 < d' ! si \<longrightarrow> 0 \<le> d' ! isi) \<and> (d' ! si < 0 \<longrightarrow> d' ! isi \<le> 0))"
proof -
  from inv have len: "length d = stages a0" by (simp add: transition_inv_def)
  let ?c = "min \<bar>d ! isi\<bar> \<bar>d ! si\<bar>"
  consider (give) "d ! isi < 0" "0 < d ! si" | (take) "0 < d ! isi" "d ! si < 0"
    | (none) "\<not> (d ! isi < 0 \<and> 0 < d ! si)" "\<not> (0 < d ! isi \<and> d ! si < 0)"
    by linarith
  then show ?thesis
  proof cases
    case give
    then have ne: "isi \<noteq> si" by auto
    from inv_move [OF inv nn isi si give refl]
    obtain a' where a': "transfer_cpus isi si (nat ?c) a = Inr a'"
      and inv': "transition_inv a0 nr (d[isi := d ! isi + ?c, si := d ! si - ?c]) a'"
      by blast
    let ?d' = "d[si := d ! si - ?c, isi := d ! isi + ?c]"
    have eq: "d[isi := d ! isi + ?c, si := d ! si - ?c] = ?d'"
      using ne by (simp add: list_update_swap)
    have vals: "?d' ! si = d ! si - ?c" "?d' ! isi = d ! isi + ?c"
      using ne si isi len by simp_all
    have step: "pair_step si isi (d, a) = Inr (?d', a')"
      using give ne si isi len a' by (simp add: pair_step_def Let_def)
    have "\<forall>j. j \<noteq> si \<and> j \<noteq> isi \<longrightarrow> ?d' ! j = d ! j" by simp
    moreover have "(0 < ?d' ! si \<longrightarrow> 0 < d ! si) \<and> (?d' ! si < 0 \<longrightarrow> d ! si < 0)"
      using give vals by auto
    moreover have "d ! si = 0 \<longrightarrow> ?d' = d" using give by simp
    moreover have "(0 < ?d' ! si \<longrightarrow> 0 \<le> ?d' ! isi) \<and> (?d' ! si < 0 \<longrightarrow> ?d' ! isi \<le> 0)"
      using give vals by auto
    ultimately show ?thesis using step inv' eq by auto
  next
    case take
    then have ne: "isi \<noteq> si" by auto
    have c: "?c = min \<bar>d ! si\<bar> \<bar>d ! isi\<bar>" by simp
    from inv_move [OF inv nn si isi take(2) take(1) c]
    obtain a' where a': "transfer_cpus si isi (nat ?c) a = Inr a'"
      and inv': "transition_inv a0 nr (d[si := d ! si + ?c, isi := d ! isi - ?c]) a'"
      by blast
    let ?d' = "d[si := d ! si + ?c, isi := d ! isi - ?c]"
    have vals: "?d' ! si = d ! si + ?c" "?d' ! isi = d ! isi - ?c"
      using ne si isi len by simp_all
    have step: "pair_step si isi (d, a) = Inr (?d', a')"
      using take ne si isi len a' by (simp add: pair_step_def Let_def)
    have "\<forall>j. j \<noteq> si \<and> j \<noteq> isi \<longrightarrow> ?d' ! j = d ! j" by simp
    moreover have "(0 < ?d' ! si \<longrightarrow> 0 < d ! si) \<and> (?d' ! si < 0 \<longrightarrow> d ! si < 0)"
      using take vals by auto
    moreover have "d ! si = 0 \<longrightarrow> ?d' = d" using take by simp
    moreover have "(0 < ?d' ! si \<longrightarrow> 0 \<le> ?d' ! isi) \<and> (?d' ! si < 0 \<longrightarrow> ?d' ! isi \<le> 0)"
      using take vals by auto
    ultimately show ?thesis using step inv' by auto
  next
    case none
    then have "pair_step si isi (d, a) = Inr (d, a)"
      by (auto simp: pair_step_def Let_def)
    moreover have "(0 < d ! si \<longrightarrow> 0 \<le> d ! isi) \<and> (d ! si < 0 \<longrightarrow> d ! isi \<le> 0)"
      using none by auto
    ultimately show ?thesis using inv by auto
  qed
qed

lemma pair_loop_inv:
  assumes "transition_inv a0 nr d a"
    and nn: "\<forall>i < stages a0. 0 \<le> nr ! i"
    and si: "si < stages a0"
    and "\<forall>j \<in> set js. j < stages a0" and "distinct js"
  shows "\<exists>d' a'. pair_loop si js (d, a) = Inr (d', a') \<and> transition_inv a0 nr d' a'
           \<and> (\<forall>j. j \<noteq> si \<and> j \<notin> set js \<longrightarrow> d' ! j = d ! j)
           \<and> (0 < d' ! si \<longrightarrow> 0 < d ! si) \<and> (d' ! si < 0 \<longrightarrow> d ! si < 0)
           \<and> (\<forall>j \<in> set js. j \<noteq> si \<longrightarrow>
                 (0 < d' ! si \<longrightarrow> 0 \<le> d' ! j) \<and> (d' ! si < 0 \<longrightarrow> d' ! j \<le> 0))"
  using assms(1,4,5)
proof (induction js arbitrary: d a)
  case Nil
  then show ?case by simp
next
  case (Cons isi js)
  from Cons.prems have isi: "isi < stages a0" and notin: "isi \<notin> set js" by simp_all
  from pair_step_inv [OF Cons.prems(1) nn si isi]
  obtain d1 a1 where step: "pair_step si isi (d, a) = Inr (d1, a1)"
    and inv1: "transition_inv a0 nr d1 a1"
    and other1: "\<forall>j. j \<noteq> si \<and> j \<noteq> isi \<longrightarrow> d1 ! j = d ! j"
    and sign1: "(0 < d1 ! si \<longrightarrow> 0 < d ! si) \<and> (d1 ! si < 0 \<longrightarrow> d ! si < 0)"
    and prog1: "isi \<noteq> si \<longrightarrow> (0 < d1 ! si \<longrightarrow> 0 \<le> d1 ! isi) \<and> (d1 ! si < 0 \<longrightarrow> d1 ! isi \<le> 0)"
    by blast
  from Cons.prems have "\<forall>j \<in> set js. j < stages a0" "distinct js" by simp_all
  from Cons.IH [OF inv1 this]
  obtain d2 a2 where loop: "pair_loop si js (d1, a1) = Inr (d2, a2)"
    and inv2: "transition_inv a0 nr d2 a2"
    and other2: "\<forall>j. j \<noteq> si \<and> j \<notin> set js \<longrightarrow> d2 ! j = d1 ! j"
    and sign2: "(0 < d2 ! si \<longrightarrow> 0 < d1 ! si) \<and> (d2 ! si < 0 \<longrightarrow> d1 ! si < 0)"
    and prog2: "\<forall>j \<in> set js. j \<noteq> si \<longrightarrow>
                 (0 < d2 ! si \<longrightarrow> 0 \<le> d2 ! j) \<and> (d2 ! si < 0 \<longrightarrow> d2 ! j \<le> 0)"
    by blast
  have "pair_loop si (isi # js) (d, a) = Inr (d2, a2)" using step loop by simp
  moreover have "\<forall>j. j \<noteq> si \<and> j \<notin> set (isi # js) \<longrightarrow> d2 ! j = d ! j"
    using other1 other2 by simp
  moreover have "(0 < d2 ! si \<longrightarrow> 0 < d ! si) \<and> (d2 ! si < 0 \<longrightarrow> d ! si < 0)"
    using sign1 sign2 by blast
  moreover have "\<forall>j \<in> set (isi # js). j \<noteq> si \<longrightarrow>
                 (0 < d2 ! si \<longrightarrow> 0 \<le> d2 ! j) \<and> (d2 ! si < 0 \<longrightarrow> d2 ! j \<le> 0)"
  proof (intro ballI impI)
    fix j assume j: "j \<in> set (isi # js)" "j \<noteq> si"
    show "(0 < d2 ! si \<longrightarrow> 0 \<le> d2 ! j) \<and> (d2 ! si < 0 \<longrightarrow> d2 ! j \<le> 0)"
    proof (cases "j = isi")
      case True
      with j notin other2 have "d2 ! isi = d1 ! isi" by simp
      with True j prog1 sign2 show ?thesis by auto
    next
      case False
      with j prog2 show ?thesis by simp
    qed
  qed
  ultimately show ?case using inv2 by blast
qed

lemma sum_list_others_nonneg:
  fixes d :: "int list"
  assumes "si < length d" and "\<forall>j < length d. j \<noteq> si \<longrightarrow> 0 \<le> d ! j"
  shows "d ! si \<le> sum_list d"
proof -
  have "sum_list d = (\<Sum>j = 0..<length d. d ! j)" by (rule sum_list_sum_nth)
  also have "\<dots> = d ! si + (\<Sum>j \<in> {0..<length d} - {si}. d ! j)"
    using assms(1) by (simp add: sum.remove)
  finally have "sum_list d = d ! si + (\<Sum>j \<in> {0..<length d} - {si}. d ! j)" .
  moreover have "0 \<le> (\<Sum>j \<in> {0..<length d} - {si}. d ! j)"
    using assms(2) by (intro sum_nonneg) simp
  ultimately show ?thesis by simp
qed

lemma sum_list_others_nonpos:
  fixes d :: "int list"
  assumes "si < length d" and "\<forall>j < length d. j \<noteq> si \<longrightarrow> d ! j \<le> 0"
  shows "sum_list d \<le> d ! si"
proof -
  have "sum_list d = (\<Sum>j = 0..<length d. d ! j)" by (rule sum_list_sum_nth)
  also have "\<dots> = d ! si + (\<Sum>j \<in> {0..<length d} - {si}. d ! j)"
    using assms(1) by (simp add: sum.remove)
  finally have "sum_list d = d ! si + (\<Sum>j \<in> {0..<length d} - {si}. d ! j)" .
  moreover have "(\<Sum>j \<in> {0..<length d} - {si}. d ! j) \<le> 0"
    using assms(2) by (intro sum_nonpos) simp
  ultimately show ?thesis by simp
qed

lemma stage_step_inv:
  assumes inv: "transition_inv a0 nr d a"
    and nn: "\<forall>i < stages a0. 0 \<le> nr ! i"
    and si: "si < stages a0"
    and zeros: "\<forall>j < si. d ! j = 0"
  shows "\<exists>d' a'. stage_step si (d, a) = Inr (d', a') \<and> transition_inv a0 nr d' a'
           \<and> (\<forall>j < Suc si. d' ! j = 0)"
proof (cases "d ! si = 0")
  case True
  with zeros have "\<forall>j < Suc si. d ! j = 0" by (simp add: less_Suc_eq)
  with True inv show ?thesis by (simp add: stage_step_def)
next
  case False
  from inv have st: "stages a = stages a0" by (simp add: transition_inv_def)
  from pair_loop_inv [OF inv nn si, of "[si..<stages a0]"]
  obtain d' a' where loop: "pair_loop si [si..<stages a0] (d, a) = Inr (d', a')"
    and inv': "transition_inv a0 nr d' a'"
    and other: "\<forall>j. j \<noteq> si \<and> j \<notin> set [si..<stages a0] \<longrightarrow> d' ! j = d ! j"
    and prog: "\<forall>j \<in> set [si..<stages a0]. j \<noteq> si \<longrightarrow>
                 (0 < d' ! si \<longrightarrow> 0 \<le> d' ! j) \<and> (d' ! si < 0 \<longrightarrow> d' ! j \<le> 0)"
    by auto
  from inv' have len: "length d' = stages a0" and sm: "sum_list d' = 0"
    by (simp_all add: transition_inv_def)
  have before: "d' ! j = 0" if "j < si" for j
    using other zeros that by simp
  have "d' ! si = 0"
  proof (rule ccontr)
    assume nz: "d' ! si \<noteq> 0"
    show False
    proof (cases "0 < d' ! si")
      case True
      have "\<forall>j < length d'. j \<noteq> si \<longrightarrow> 0 \<le> d' ! j"
      proof (intro allI impI)
        fix j assume "j < length d'" "j \<noteq> si"
        then show "0 \<le> d' ! j"
          using before [of j] prog True len by (cases "j < si") auto
      qed
      from sum_list_others_nonneg [OF _ this] si len sm True show False by simp
    next
      case False
      with nz have neg: "d' ! si < 0" by simp
      have "\<forall>j < length d'. j \<noteq> si \<longrightarrow> d' ! j \<le> 0"
      proof (intro allI impI)
        fix j assume "j < length d'" "j \<noteq> si"
        then show "d' ! j \<le> 0"
          using before [of j] prog neg len by (cases "j < si") auto
      qed
      from sum_list_others_nonpos [OF _ this] si len sm neg show False by simp
    qed
  qed
  moreover from this before have "\<forall>j < Suc si. d' ! j = 0" by (simp add: less_Suc_eq)
  ultimately show ?thesis using False loop inv' st by (simp add: stage_step_def)
qed

lemma stage_loop_inv:
  assumes "transition_inv a0 nr d a"
    and nn: "\<forall>i < stages a0. 0 \<le> nr ! i"
    and "k \<le> stages a0" and "\<forall>j < k. d ! j = 0"
  shows "\<exists>d' a'. stage_loop [k..<stages a0] (d, a) = Inr (d', a') \<and> transition_inv a0 nr d' a'
           \<and> (\<forall>j < stages a0. d' ! j = 0)"
  using assms(1,3,4)
proof (induction "stages a0 - k" arbitrary: k d a)
  case 0
  then show ?case by simp
next
  case (Suc m)
  then have k: "k < stages a0" by simp
  from stage_step_inv [OF Suc.prems(1) nn k Suc.prems(3)]
  obtain d1 a1 where step: "stage_step k (d, a) = Inr (d1, a1)"
    and inv1: "transition_inv a0 nr d1 a1" and zeros1: "\<forall>j < Suc k. d1 ! j = 0"
    by blast
  from Suc.hyps(2) k have "m = stages a0 - Suc k" "Suc k \<le> stages a0" by simp_all
  from Suc.hyps(1) [OF this(1) inv1 this(2) zeros1]
  obtain d2 a2 where "stage_loop [Suc k..<stages a0] (d1, a1) = Inr (d2, a2)"
    and "transition_inv a0 nr d2 a2" and "\<forall>j < stages a0. d2 ! j = 0"
    by blast
  with step k show ?case by (simp add: upt_conv_Cons)
qed

lemma sum_list_delta:
  fixes xs ys :: "int list"
  assumes "length xs = n" "length ys = n"
  shows "sum_list (map (\<lambda>i. xs ! i - ys ! i) [0..<n]) = sum_list xs - sum_list ys"
proof -
  have "sum_list (map (\<lambda>i. xs ! i - ys ! i) [0..<n])
      = sum_list (map ((!) xs) [0..<n]) - sum_list (map ((!) ys) [0..<n])"
    by (simp add: sum_list_subtractf)
  moreover have "map ((!) xs) [0..<n] = xs" "map ((!) ys) [0..<n] = ys"
    using assms map_nth [of xs] map_nth [of ys] by simp_all
  ultimately show ?thesis by (simp only:)
qed

lemma inv_initial:
  assumes ok: "assignment_ok a" and len: "length nr = stages a"
    and total: "sum_list nr = sum_list (reqs a)"
  shows "transition_inv a nr (map (\<lambda>si. nr ! si - reqs a ! si) [0..<stages a]) a"
  using assms
  by (auto simp: transition_inv_def assignment_ok_def sum_list_delta)

lemma card_moved:
  assumes okb: "assignment_ok b" and st: "stages b = stages a"
  shows "card (moved a b) = (\<Sum>i < stages a. card (cpus_per_stage b ! i - cpus_per_stage a ! i))"
  unfolding moved_def
proof (rule card_UN_disjoint)
  show "finite {..<stages a}" by simp
  show "\<forall>i \<in> {..<stages a}. finite (cpus_per_stage b ! i - cpus_per_stage a ! i)"
    using okb st by (simp add: assignment_ok_def)
  show "\<forall>i \<in> {..<stages a}. \<forall>j \<in> {..<stages a}. i \<noteq> j \<longrightarrow>
      (cpus_per_stage b ! i - cpus_per_stage a ! i) \<inter> (cpus_per_stage b ! j - cpus_per_stage a ! j) = {}"
  proof (intro ballI impI)
    fix i j assume "i \<in> {..<stages a}" "j \<in> {..<stages a}" "i \<noteq> j"
    with okb st have "cpus_per_stage b ! i \<inter> cpus_per_stage b ! j = {}"
      by (simp add: assignment_ok_def)
    then show "(cpus_per_stage b ! i - cpus_per_stage a ! i) \<inter> (cpus_per_stage b ! j - cpus_per_stage a ! j) = {}"
      by blast
  qed
qed

lemma moved_lower_bound:
  assumes oka: "assignment_ok a" and okb: "assignment_ok b" and st: "stages b = stages a"
  shows "(\<Sum>i < stages a. max 0 (reqs b ! i - reqs a ! i)) \<le> int (card (moved a b))"
proof -
  have "max 0 (reqs b ! i - reqs a ! i) \<le> int (card (cpus_per_stage b ! i - cpus_per_stage a ! i))"
    if "i < stages a" for i
  proof -
    from oka okb st that have fa: "finite (cpus_per_stage a ! i)"
      and ca: "int (card (cpus_per_stage a ! i)) = reqs a ! i"
      and cb: "int (card (cpus_per_stage b ! i)) = reqs b ! i"
      by (simp_all add: assignment_ok_def)
    from diff_card_le_card_Diff [OF fa, of "cpus_per_stage b ! i"]
    have "card (cpus_per_stage b ! i) - card (cpus_per_stage a ! i)
        \<le> card (cpus_per_stage b ! i - cpus_per_stage a ! i)" .
    with ca cb show ?thesis by linarith
  qed
  then have "(\<Sum>i < stages a. max 0 (reqs b ! i - reqs a ! i))
      \<le> (\<Sum>i < stages a. int (card (cpus_per_stage b ! i - cpus_per_stage a ! i)))"
    by (intro sum_mono) simp
  also have "\<dots> = int (card (moved a b))"
    by (simp add: card_moved [OF okb st])
  finally show ?thesis .
qed

text \<open>
  Claim C4. Let the assignment be well formed (its sets pairwise disjoint, finite, with
  sizes equal to its stored requirements, which add up to its CPUs) and let the new
  requirements, one per stage and none negative as \<open>validate_reqs\<close> asserts, have the
  same total. Then \<open>transition_to\<close> returns a well-formed assignment that stores the
  new requirements, so every stage's set has the size of its new requirement. A CPU
  that is in a stage's set afterwards and was not before has come to a stage whose
  requirement grew, from a stage whose requirement shrank. The number of CPUs whose
  stage has changed is the sum of the positive deltas, and no well-formed assignment
  with the new requirements differs from the old one in fewer CPUs.
\<close>

theorem transition_to_minimal:
  assumes ok: "assignment_ok a"
    and len: "length new_reqs = stages a"
    and nn: "\<forall>i < stages a. 0 \<le> new_reqs ! i"
    and total: "sum_list new_reqs = sum_list (reqs a)"
  shows "\<exists>a'. transition_to new_reqs a = Inr a'
          \<and> reqs a' = new_reqs \<and> stages a' = stages a \<and> cpus a' = cpus a
          \<and> assignment_ok a'
          \<and> (\<forall>i < stages a. \<forall>c. c \<in> cpus_per_stage a' ! i \<and> c \<notin> cpus_per_stage a ! i \<longrightarrow>
                 reqs a ! i < new_reqs ! i
               \<and> (\<exists>j < stages a. c \<in> cpus_per_stage a ! j \<and> c \<notin> cpus_per_stage a' ! j
                       \<and> new_reqs ! j < reqs a ! j))
          \<and> int (card (moved a a')) = (\<Sum>i < stages a. max 0 (new_reqs ! i - reqs a ! i))
          \<and> (\<forall>b. assignment_ok b \<and> stages b = stages a \<and> reqs b = new_reqs \<longrightarrow>
                 card (moved a a') \<le> card (moved a b))"
proof -
  let ?n = "stages a"
  let ?S = "cpus_per_stage a"
  let ?d0 = "map (\<lambda>si. new_reqs ! si - reqs a ! si) [0..<?n]"
  from ok have lr: "length (reqs a) = ?n" and cp: "sum_list (reqs a) = int (cpus a)"
    and ca: "\<And>i. i < ?n \<Longrightarrow> int (card (?S ! i)) = reqs a ! i"
    and fa: "\<And>i. i < ?n \<Longrightarrow> finite (?S ! i)"
    by (simp_all add: assignment_ok_def)
  have valid: "validate_reqs a new_reqs"
    using len nn total cp by (simp add: validate_reqs_def list_all_length)
  have sum0: "sum_list ?d0 = 0"
    using len lr total by (simp add: sum_list_delta)
  from stage_loop_inv [OF inv_initial [OF ok len total] nn, of 0]
  obtain d' a1 where loop: "stage_loop [0..<?n] (?d0, a) = Inr (d', a1)"
    and inv: "transition_inv a new_reqs d' a1" and zero: "\<forall>j < ?n. d' ! j = 0"
    by auto
  let ?a' = "a1\<lparr>reqs := new_reqs\<rparr>"
  let ?S' = "cpus_per_stage a1"
  have run: "transition_to new_reqs a = Inr ?a'"
    using len lr valid sum0 loop by (simp add: transition_to_def Let_def)
  from inv have same: "stages a1 = ?n" "cpus a1 = cpus a" and lS: "length ?S' = ?n"
    and fin: "\<And>i. i < ?n \<Longrightarrow> finite (?S' ! i)"
    and crd: "\<And>i. i < ?n \<Longrightarrow> int (card (?S' ! i)) = new_reqs ! i - d' ! i"
    and dis: "\<And>i j. i < ?n \<Longrightarrow> j < ?n \<Longrightarrow> i \<noteq> j \<Longrightarrow> ?S' ! i \<inter> ?S' ! j = {}"
    and mono: "\<And>i. i < ?n \<Longrightarrow>
         (0 < new_reqs ! i - reqs a ! i \<longrightarrow> ?S ! i \<subseteq> ?S' ! i)
       \<and> (new_reqs ! i - reqs a ! i < 0 \<longrightarrow> ?S' ! i \<subseteq> ?S ! i)
       \<and> (new_reqs ! i - reqs a ! i = 0 \<longrightarrow> ?S' ! i = ?S ! i)"
    and un: "(\<Union>i < ?n. ?S' ! i) = (\<Union>i < ?n. ?S ! i)"
    by (simp_all add: transition_inv_def)
  have crd0: "int (card (?S' ! i)) = new_reqs ! i" if "i < ?n" for i
    using crd [OF that] zero that by simp
  have ok': "assignment_ok ?a'"
    using same lS len fin crd0 dis total cp by (simp add: assignment_ok_def)
  have dir: "reqs a ! i < new_reqs ! i
      \<and> (\<exists>j < ?n. c \<in> ?S ! j \<and> c \<notin> ?S' ! j \<and> new_reqs ! j < reqs a ! j)"
    if i: "i < ?n" and c: "c \<in> ?S' ! i" "c \<notin> ?S ! i" for i c
  proof
    from mono [OF i] c show gain: "reqs a ! i < new_reqs ! i" by auto
    from c(1) i have "c \<in> (\<Union>i < ?n. ?S' ! i)" by blast
    with un obtain j where j: "j < ?n" "c \<in> ?S ! j" by blast
    with c(2) have ne: "j \<noteq> i" by auto
    from dis [OF j(1) i ne] c(1) have out: "c \<notin> ?S' ! j" by auto
    with mono [OF j(1)] j(2) have "new_reqs ! j < reqs a ! j" by auto
    with j out show "\<exists>j < ?n. c \<in> ?S ! j \<and> c \<notin> ?S' ! j \<and> new_reqs ! j < reqs a ! j"
      by blast
  qed
  have each: "int (card (?S' ! i - ?S ! i)) = max 0 (new_reqs ! i - reqs a ! i)" if i: "i < ?n" for i
  proof (cases "0 < new_reqs ! i - reqs a ! i")
    case True
    with mono [OF i] have sub: "?S ! i \<subseteq> ?S' ! i" by simp
    then have "card (?S' ! i - ?S ! i) = card (?S' ! i) - card (?S ! i)"
      using fa [OF i] by (simp add: card_Diff_subset)
    moreover have "card (?S ! i) \<le> card (?S' ! i)" using sub fin [OF i] by (rule card_mono [rotated])
    ultimately show ?thesis using crd0 [OF i] ca [OF i] True by linarith
  next
    case False
    with mono [OF i] have "?S' ! i \<subseteq> ?S ! i" by (cases "new_reqs ! i - reqs a ! i = 0") auto
    then have "?S' ! i - ?S ! i = {}" by blast
    then have "card (?S' ! i - ?S ! i) = 0" by (simp only: card.empty)
    with False show ?thesis by simp
  qed
  have st': "stages ?a' = stages a" using same by simp
  have count: "int (card (moved a ?a')) = (\<Sum>i < ?n. max 0 (new_reqs ! i - reqs a ! i))"
    using card_moved [OF ok' st'] each by simp
  have least: "card (moved a ?a') \<le> card (moved a b)"
    if "assignment_ok b \<and> stages b = stages a \<and> reqs b = new_reqs" for b
    using moved_lower_bound [OF ok, of b] that count by simp
  show ?thesis
  proof (intro exI [of _ ?a'] conjI)
    show "transition_to new_reqs a = Inr ?a'" by (rule run)
    show "reqs ?a' = new_reqs" by simp
    show "stages ?a' = stages a" by (rule st')
    show "cpus ?a' = cpus a" using same by simp
    show "assignment_ok ?a'" by (rule ok')
    show "\<forall>i < stages a. \<forall>c. c \<in> cpus_per_stage ?a' ! i \<and> c \<notin> cpus_per_stage a ! i \<longrightarrow>
                 reqs a ! i < new_reqs ! i
               \<and> (\<exists>j < stages a. c \<in> cpus_per_stage a ! j \<and> c \<notin> cpus_per_stage ?a' ! j
                       \<and> new_reqs ! j < reqs a ! j)"
    proof (intro allI impI)
      fix i c assume "i < stages a" "c \<in> cpus_per_stage ?a' ! i \<and> c \<notin> cpus_per_stage a ! i"
      then show "reqs a ! i < new_reqs ! i
               \<and> (\<exists>j < stages a. c \<in> cpus_per_stage a ! j \<and> c \<notin> cpus_per_stage ?a' ! j
                       \<and> new_reqs ! j < reqs a ! j)"
        using dir [of i c] by simp
    qed
    show "int (card (moved a ?a')) = (\<Sum>i < stages a. max 0 (new_reqs ! i - reqs a ! i))"
      by (rule count)
    show "\<forall>b. assignment_ok b \<and> stages b = stages a \<and> reqs b = new_reqs \<longrightarrow>
                 card (moved a ?a') \<le> card (moved a b)"
      using least by blast
  qed
qed

theorem transition_to_minimal_witness:
  "transition_to [0, 1, 4]
     \<lparr>reqs = [2, 2, 1], cpus_per_stage = [{0, 3}, {1, 4}, {2}], cpus = 5, stages = 3\<rparr>
   = Inr \<lparr>reqs = [0, 1, 4], cpus_per_stage = [{}, {4}, {0, 1, 2, 3}], cpus = 5, stages = 3\<rparr>
   \<and> card (moved \<lparr>reqs = [2, 2, 1], cpus_per_stage = [{0, 3}, {1, 4}, {2}], cpus = 5, stages = 3\<rparr>
               \<lparr>reqs = [0, 1, 4], cpus_per_stage = [{}, {4}, {0, 1, 2, 3}], cpus = 5, stages = 3\<rparr>) = 3"
proof -
  let ?a = "\<lparr>reqs = [2, 2, 1], cpus_per_stage = [{0, 3}, {1, 4}, {2}], cpus = 5, stages = 3\<rparr>"
  let ?a' = "\<lparr>reqs = [0, 1, 4], cpus_per_stage = [{}, {4}, {0, 1, 2, 3}], cpus = 5, stages = 3\<rparr>"
  have run: "transition_to [0, 1, 4] ?a = Inr ?a'" by code_simp
  have ok: "assignment_ok ?a" by (simp add: assignment_ok_def numeral_3_eq_3 less_Suc_eq)
  have nn: "\<forall>i < stages ?a. 0 \<le> [0, 1, 4::int] ! i" by (simp add: numeral_3_eq_3 less_Suc_eq)
  from transition_to_minimal [OF ok _ nn]
  obtain b where b: "transition_to [0, 1, 4] ?a = Inr b"
    and c: "int (card (moved ?a b)) = (\<Sum>i < stages ?a. max 0 ([0, 1, 4] ! i - reqs ?a ! i))"
    by auto
  from b run have "b = ?a'" by simp
  with c have "int (card (moved ?a ?a')) = 3" by (simp add: numeral_3_eq_3)
  with run show ?thesis by simp
qed

end
